theory Spec2Isabelle
  imports Main
begin

section \<open>The settings menu of \<^verbatim>\<open>settings.cpp\<close>\<close>

text \<open>
  The library keeps its state in file-level globals: the array \<^verbatim>\<open>settings\<close> of
  \<^verbatim>\<open>Setting\<close> structs, the counters \<^verbatim>\<open>nSettings\<close> and \<^verbatim>\<open>maxSettings\<close>, the
  cursor \<^verbatim>\<open>currentSetting\<close>, the first displayed row \<^verbatim>\<open>topSetting\<close> and the flags
  \<^verbatim>\<open>editing\<close> and \<^verbatim>\<open>canUseDisplay\<close>. The model passes a record of these globals
  through every function. A C \<^verbatim>\<open>int\<close> is an \<open>int\<close>: the library counts settings, values
  and display cells, and overflow of its arithmetic is not modelled.

  Dereferencing a null pointer and indexing outside an array have no defined result in
  C++; the model makes them a \<open>fault\<close>, returned as \<open>Inl\<close>.
\<close>

subsection \<open>Constants of \<^verbatim>\<open>st7735_properties.h\<close>\<close>

definition TFT_HEIGHT :: int where "TFT_HEIGHT = 128"
definition CHAR_WIDTH :: int where "CHAR_WIDTH = 6"
definition CHAR_HEIGHT :: int where "CHAR_HEIGHT = 8"
definition TFT_LINES :: int where "TFT_LINES = TFT_HEIGHT div CHAR_HEIGHT"
definition TFT_CHARS :: int where "TFT_CHARS = 26"
definition BLACK :: int where "BLACK = 0x0000"
definition BLUE :: int where "BLUE = 0x001F"
definition RED :: int where "RED = 0xF800"
definition WHITE :: int where "WHITE = 0xFFFF"
definition ST7735_BLACK :: int where "ST7735_BLACK = 0x0000"

subsection \<open>Data\<close>

datatype fault = NullPointer | OutOfBounds

text \<open>
  \<^verbatim>\<open>struct Settings\<close>. The pointers \<^verbatim>\<open>name\<close>, \<^verbatim>\<open>values\<close> and \<^verbatim>\<open>fPtr\<close> may be
  \<^verbatim>\<open>NULL\<close> (\<open>None\<close>); a \<^verbatim>\<open>NULL\<close> name marks an empty line. The array behind
  \<^verbatim>\<open>values\<close> is the list; \<^verbatim>\<open>nValues\<close> is the separate count the caller passed. A
  function pointer is the number of the callback in the application's table.
\<close>

record Setting =
  name :: "string option"
  values' :: "string list option"
  nValues :: int
  currentValue :: int
  newValue :: int
  fPtr :: "nat option"
  liveUpdate :: bool
  can :: bool

text \<open>The calls the library makes on the \<^verbatim>\<open>ST7735_t3\<close> driver, in order.\<close>

datatype tft_call =
    FillRect int int int int int
  | FillScreen int
  | SetCursor int int
  | SetTextColor int
  | Print string

text \<open>
  The globals. \<open>myTFT\<close> is the display behind the pointer, as the sequence of calls it has
  received. \<open>app\<close> is the state of the owning application, which only the callbacks touch.
  \<open>calls\<close> is instrumentation: every invocation of a callback, with the function pointer
  and the contents of the \<^verbatim>\<open>Setting\<close> it was handed.
\<close>

record 'w state =
  canUseDisplay :: bool
  myTFT :: "tft_call list"
  maxSettings :: int
  nSettings :: int
  settings :: "Setting list option"
  currentSetting :: int
  topSetting :: int
  editing :: bool
  app :: 'w
  calls :: "(nat \<times> Setting) list"

text \<open>
  \<^verbatim>\<open>ChangeSettingFDef\<close>: a callback reads the setting and acts on the application. It is
  taken not to write to the \<^verbatim>\<open>Setting\<close> it is handed and not to call back into the
  library.
\<close>

type_synonym 'w callbacks = "nat \<Rightarrow> Setting \<Rightarrow> 'w \<Rightarrow> bool \<times> 'w"

text \<open>The globals at program start: zero-initialised or as their initialisers say.\<close>

definition start :: "tft_call list \<Rightarrow> 'w \<Rightarrow> 'w state" where
  "start tft w = \<lparr> canUseDisplay = False, myTFT = tft, maxSettings = 0, nSettings = 0,
     settings = None, currentSetting = 0, topSetting = 0, editing = False,
     app = w, calls = [] \<rparr>"

subsection \<open>Sequencing and memory access\<close>

fun seq :: "fault + 'a \<Rightarrow> ('a \<Rightarrow> fault + 'b) \<Rightarrow> fault + 'b" where
  "seq (Inl e) f = Inl e"
| "seq (Inr x) f = f x"

text \<open>\<^verbatim>\<open>settings[i]\<close>, read.\<close>

definition settingAt :: "'w state \<Rightarrow> int \<Rightarrow> fault + Setting" where
  "settingAt s i =
     (case settings s of
        None \<Rightarrow> Inl NullPointer
      | Some xs \<Rightarrow> if 0 \<le> i \<and> i < int (length xs) then Inr (xs ! nat i) else Inl OutOfBounds)"

text \<open>\<^verbatim>\<open>settings[i]\<close>, written through a pointer that \<open>settingAt\<close> has found valid.\<close>

definition putSetting :: "int \<Rightarrow> Setting \<Rightarrow> 'w state \<Rightarrow> 'w state" where
  "putSetting i x s = s\<lparr>settings := map_option (\<lambda>xs. xs[nat i := x]) (settings s)\<rparr>"

text \<open>\<^verbatim>\<open>setting->values[k]\<close>.\<close>

definition valueAt :: "Setting \<Rightarrow> int \<Rightarrow> fault + string" where
  "valueAt x k =
     (case values' x of
        None \<Rightarrow> Inl NullPointer
      | Some vs \<Rightarrow> if 0 \<le> k \<and> k < int (length vs) then Inr (vs ! nat k) else Inl OutOfBounds)"

text \<open>\<^verbatim>\<open>((ChangeSettingFDef) setting->fPtr)(setting)\<close>.\<close>

definition invoke :: "'w callbacks \<Rightarrow> Setting \<Rightarrow> 'w state \<Rightarrow> fault + (bool \<times> 'w state)" where
  "invoke cb x s =
     (case fPtr x of
        None \<Rightarrow> Inl NullPointer
      | Some f \<Rightarrow> Inr (fst (cb f x (app s)),
                       s\<lparr>app := snd (cb f x (app s)), calls := calls s @ [(f, x)]\<rparr>))"

subsection \<open>Registry\<close>

text \<open>
  \<^verbatim>\<open>initSettings\<close>. \<open>mem\<close> is what \<^verbatim>\<open>malloc\<close> returned: \<open>None\<close> for \<^verbatim>\<open>NULL\<close>, otherwise
  the \<open>n\<close> slots with whatever they hold.
\<close>

definition initSettings :: "int \<Rightarrow> tft_call list \<Rightarrow> Setting list option \<Rightarrow> 'w state \<Rightarrow> bool \<times> 'w state" where
  "initSettings n tft mem s =
     (mem \<noteq> None, s\<lparr>myTFT := tft, maxSettings := n, settings := mem\<rparr>)"

text \<open>
  \<^verbatim>\<open>createSetting\<close>. The result is the index of the new setting, \<open>None\<close> for \<^verbatim>\<open>NULL\<close>.
  The field \<^verbatim>\<open>can\<close> is not assigned and keeps what the slot held.
\<close>

definition createSetting ::
  "string option \<Rightarrow> string list option \<Rightarrow> int \<Rightarrow> int \<Rightarrow> bool \<Rightarrow> nat option \<Rightarrow> 'w state
     \<Rightarrow> fault + (int option \<times> 'w state)" where
  "createSetting text vals nVals curVal live setFPtr s =
     (if nSettings s = maxSettings s then Inr (None, s)
      else seq (settingAt s (nSettings s)) (\<lambda>x.
        Inr (Some (nSettings s),
             (putSetting (nSettings s)
                (x\<lparr>name := text, values' := vals, nValues := nVals, currentValue := curVal,
                   newValue := curVal, fPtr := setFPtr, liveUpdate := live\<rparr>) s)
             \<lparr>nSettings := nSettings s + 1\<rparr>)))"

subsection \<open>Drawing\<close>

text \<open>
  \<^verbatim>\<open>printAt\<close>. The display is touched only while \<^verbatim>\<open>canUseDisplay\<close> holds. A \<^verbatim>\<open>NULL\<close>
  text with \<open>clean\<close> set is handed to \<^verbatim>\<open>strlen\<close>, a fault. The source computes the
  width of the cleared rectangle in \<^verbatim>\<open>size_t\<close> and the driver takes 16-bit arguments;
  the model records the width as an \<open>int\<close>, the same number wherever it is not negative
  and fits.
\<close>

definition printAt ::
  "int \<Rightarrow> int \<Rightarrow> string option \<Rightarrow> bool \<Rightarrow> int \<Rightarrow> int \<Rightarrow> int \<Rightarrow> 'w state \<Rightarrow> fault + (bool \<times> 'w state)" where
  "printAt x y text clean colorFG colorBG leading s =
     (if \<not> canUseDisplay s then Inr (True, s)
      else
        let col = x * CHAR_WIDTH; row = y * CHAR_HEIGHT in
        seq (if clean
             then (case text of
                     None \<Rightarrow> Inl NullPointer
                   | Some t \<Rightarrow> Inr (s\<lparr>myTFT := myTFT s @
                        [FillRect col row ((int (length t) + leading) * CHAR_WIDTH) CHAR_HEIGHT colorBG]\<rparr>))
             else Inr s) (\<lambda>s1.
        case text of
          None \<Rightarrow> Inr (True, s1)
        | Some t \<Rightarrow> Inr (True, s1\<lparr>myTFT := myTFT s1 @ [SetCursor col row, SetTextColor colorFG]
                          @ replicate (nat leading) (Print '' '') @ [Print t]\<rparr>)))"

definition displayName :: "int \<Rightarrow> int \<Rightarrow> bool \<Rightarrow> int \<Rightarrow> int \<Rightarrow> 'w state \<Rightarrow> fault + (bool \<times> 'w state)" where
  "displayName i row clean colorFG colorBG s =
     (if settings s = None then Inr (False, s)
      else seq (settingAt s i) (\<lambda>x. printAt 2 row (name x) clean colorFG colorBG 0 s))"

definition displayValue :: "int \<Rightarrow> int \<Rightarrow> bool \<Rightarrow> int \<Rightarrow> int \<Rightarrow> 'w state \<Rightarrow> fault + (bool \<times> 'w state)" where
  "displayValue i row clean colorFG colorBG s =
     (if settings s = None then Inr (False, s)
      else seq (settingAt s i) (\<lambda>x.
           seq (valueAt x (newValue x)) (\<lambda>t.
             printAt 19 row (Some t) clean colorFG colorBG (TFT_CHARS - 19 - int (length t)) s)))"

definition highlightValue :: "'w state \<Rightarrow> fault + (bool \<times> 'w state)" where
  "highlightValue s =
     (let row = currentSetting s - topSetting s in
      seq (if editing s
           then seq (settingAt s (currentSetting s)) (\<lambda>x.
                  Inr (if currentValue x = newValue x then BLUE else RED))
           else Inr WHITE) (\<lambda>color.
      displayValue (currentSetting s) row True color BLACK s))"

definition displaySetting :: "int \<Rightarrow> int \<Rightarrow> bool \<Rightarrow> int \<Rightarrow> int \<Rightarrow> 'w state \<Rightarrow> fault + (bool \<times> 'w state)" where
  "displaySetting i row clean colorFG colorBG s =
     (if settings s = None then Inr (False, s)
      else seq (settingAt s i) (\<lambda>x.
        if name x \<noteq> None
        then seq (displayName i row clean colorFG colorBG s) (\<lambda>(r1, s1).
               if r1
               then displayValue i row clean colorFG colorBG s1
               else Inr (False, s1))
        else seq (printAt 0 row (Some ''                          '') True WHITE BLACK 0 s)
               (\<lambda>(r1, s1). Inr (True, s1))))"

text \<open>The loop of \<^verbatim>\<open>displaySettings\<close>: rows \<open>i\<close> to \<open>n - 1\<close>, as long as \<open>result\<close> holds.\<close>

function displayRows :: "int \<Rightarrow> int \<Rightarrow> int \<Rightarrow> bool \<Rightarrow> 'w state \<Rightarrow> fault + (bool \<times> 'w state)" where
  "displayRows first n i result s =
     (if i < n \<and> result
      then seq (displaySetting (first + i) i False WHITE BLACK s) (\<lambda>(r1, s1).
             displayRows first n (i + 1) r1 s1)
      else Inr (result, s))"
  by pat_completeness auto
termination
  by (relation "measure (\<lambda>(first, n, i, result, s). nat (n - i))") auto

declare displayRows.simps [simp del]

definition displaySettings :: "int \<Rightarrow> 'w state \<Rightarrow> fault + (bool \<times> 'w state)" where
  "displaySettings first s =
     (if \<not> canUseDisplay s then Inr (False, s)
      else
        let s1 = s\<lparr>myTFT := myTFT s @ [FillScreen ST7735_BLACK]\<rparr>;
            n = (if nSettings s1 - first > TFT_LINES then TFT_LINES else nSettings s1 - first)
        in seq (displayRows first n 0 True s1) (\<lambda>(result, s2).
             Inr (result, s2\<lparr>topSetting := first\<rparr>)))"

definition selectSetting :: "bool \<Rightarrow> 'w state \<Rightarrow> fault + (bool \<times> 'w state)" where
  "selectSetting on s =
     (let row = currentSetting s - topSetting s in
      printAt 0 row (Some (if on then ''>'' else '' '')) True WHITE BLACK 0 s)"

subsection \<open>Display ownership\<close>

definition settingsDisplayOn :: "'w state \<Rightarrow> fault + (bool \<times> 'w state)" where
  "settingsDisplayOn s =
     (let s1 = s\<lparr>canUseDisplay := True\<rparr> in
      seq (displaySettings (topSetting s1) s1) (\<lambda>(result, s2).
      seq (selectSetting True s2) (\<lambda>(r3, s3).
      Inr (result, s3))))"

definition settingsDisplayOff :: "'w state \<Rightarrow> fault + (bool \<times> 'w state)" where
  "settingsDisplayOff s = Inr (True, s\<lparr>canUseDisplay := False, editing := False\<rparr>)"

subsection \<open>Editing a value\<close>

text \<open>
  \<^verbatim>\<open>scrollValue\<close>. The pointer \<^verbatim>\<open>&settings[currentSetting]\<close> is \<^verbatim>\<open>NULL\<close> only when
  the array is and the index is zero.
\<close>

definition scrollValue :: "'w callbacks \<Rightarrow> int \<Rightarrow> 'w state \<Rightarrow> fault + (bool \<times> 'w state)" where
  "scrollValue cb d s =
     (if settings s = None \<and> currentSetting s = 0 then Inr (False, s)
      else seq (settingAt s (currentSetting s)) (\<lambda>x.
        let currentNewValue = newValue x;
            newNewValue =
              (if d > 0 \<and> currentNewValue < nValues x - 1 then newValue x + d
               else if d < 0 \<and> currentNewValue > 0 then newValue x + d
               else newValue x)
        in if newNewValue \<noteq> currentNewValue
           then
             let x1 = x\<lparr>newValue := newNewValue\<rparr> in
             seq (highlightValue (putSetting (currentSetting s) x1 s)) (\<lambda>(result, s1).
               if liveUpdate x1
               then seq (invoke cb x1 s1) (\<lambda>(r, s2).
                      Inr (result, putSetting (currentSetting s2) (x1\<lparr>can := r\<rparr>) s2))
               else Inr (result, s1))
           else Inr (True, s)))"

subsection \<open>Moving the cursor\<close>

text \<open>
  The \<^verbatim>\<open>do ... while\<close> of \<^verbatim>\<open>scrollSetting\<close>: the next setting with a name in direction
  \<open>d\<close>, \<open>None\<close> where the source leaves with \<^verbatim>\<open>return false\<close>.
\<close>

function findSetting :: "int \<Rightarrow> 'w state \<Rightarrow> int \<Rightarrow> fault + int option" where
  "findSetting d s newSetting =
     (if d > 0 \<and> newSetting < nSettings s - 1
      then seq (settingAt s (newSetting + d)) (\<lambda>x.
             if name x = None then findSetting d s (newSetting + d)
             else Inr (Some (newSetting + d)))
      else if d < 0 \<and> newSetting > 0
      then seq (settingAt s (newSetting + d)) (\<lambda>x.
             if name x = None then findSetting d s (newSetting + d)
             else Inr (Some (newSetting + d)))
      else Inr None)"
  by pat_completeness auto
termination
  by (relation "measure (\<lambda>(d, s, k). if d > 0 then nat (nSettings s - k) else nat k)") auto

declare findSetting.simps [simp del]

definition scrollSetting :: "int \<Rightarrow> 'w state \<Rightarrow> fault + (bool \<times> 'w state)" where
  "scrollSetting d s =
     seq (findSetting d s (currentSetting s)) (\<lambda>found.
       case found of
         None \<Rightarrow> Inr (False, s)
       | Some newSetting \<Rightarrow>
           if newSetting \<noteq> currentSetting s
           then seq (selectSetting False s) (\<lambda>(r1, s1).
                let s2 = s1\<lparr>currentSetting := newSetting\<rparr> in
                seq (if currentSetting s2 < topSetting s2
                     then displaySettings (currentSetting s2) s2
                     else if currentSetting s2 \<ge> topSetting s2 + TFT_LINES
                     then displaySettings (currentSetting s2 - TFT_LINES + 1) s2
                     else Inr (True, s2)) (\<lambda>(result, s3).
                seq (selectSetting True s3) (\<lambda>(r4, s4).
                Inr (result, s4))))
           else Inr (True, s))"

subsection \<open>The four events\<close>

definition settingsUp :: "'w callbacks \<Rightarrow> 'w state \<Rightarrow> fault + (bool \<times> 'w state)" where
  "settingsUp cb s = (if editing s then scrollValue cb 1 s else scrollSetting 1 s)"

definition settingsDown :: "'w callbacks \<Rightarrow> 'w state \<Rightarrow> fault + (bool \<times> 'w state)" where
  "settingsDown cb s = (if editing s then scrollValue cb (- 1) s else scrollSetting (- 1) s)"

text \<open>
  The block of \<^verbatim>\<open>settingsOK\<close> under \<^verbatim>\<open>if( editing )\<close>: "change value of setting".
\<close>

definition commitValue :: "'w callbacks \<Rightarrow> 'w state \<Rightarrow> fault + 'w state" where
  "commitValue cb s =
     seq (settingAt s (currentSetting s)) (\<lambda>x.
       if newValue x \<noteq> currentValue x
       then if liveUpdate x
            then if can x
                 then Inr (putSetting (currentSetting s) (x\<lparr>currentValue := newValue x\<rparr>) s)
                 else Inr (putSetting (currentSetting s) (x\<lparr>newValue := currentValue x\<rparr>) s)
            else seq (invoke cb x s) (\<lambda>(r, s1).
                   if r
                   then Inr (putSetting (currentSetting s1) (x\<lparr>currentValue := newValue x\<rparr>) s1)
                   else Inr (putSetting (currentSetting s1) (x\<lparr>newValue := currentValue x\<rparr>) s1))
       else Inr s)"

text \<open>
  \<^verbatim>\<open>settingsOK\<close>. \<^verbatim>\<open>result\<close> is never assigned after its initialisation, so the flag
  is always toggled; the result of \<^verbatim>\<open>highlightValue\<close> is dropped.
\<close>

definition settingsOK :: "'w callbacks \<Rightarrow> 'w state \<Rightarrow> fault + (bool \<times> 'w state)" where
  "settingsOK cb s =
     seq (if editing s then commitValue cb s else Inr s) (\<lambda>s1.
     let result = True;
         s2 = (if result then s1\<lparr>editing := \<not> editing s1\<rparr> else s1)
     in seq (highlightValue s2) (\<lambda>(r3, s3). Inr (result, s3)))"

definition resetNewValue :: "'w callbacks \<Rightarrow> 'w state \<Rightarrow> fault + (bool \<times> 'w state)" where
  "resetNewValue cb s =
     seq (settingAt s (currentSetting s)) (\<lambda>x.
       let resetLive = (liveUpdate x \<and> can x \<and> newValue x \<noteq> currentValue x);
           x1 = x\<lparr>newValue := currentValue x\<rparr>;
           s1 = putSetting (currentSetting s) x1 s
       in if resetLive
          then seq (invoke cb x1 s1) (\<lambda>(r, s2). Inr (True, s2))
          else Inr (True, s1))"

definition settingsStop :: "'w callbacks \<Rightarrow> 'w state \<Rightarrow> fault + (bool \<times> 'w state)" where
  "settingsStop cb s = (if editing s then resetNewValue cb s else Inr (True, s))"

subsection \<open>Named settings and the empty lines between them\<close>

text \<open>
  Slot \<open>i\<close> can be read and holds a setting with a name (\<open>named\<close>) or an empty line
  (\<open>blank\<close>); \<open>gap s p q\<close>: \<open>p\<close> lies below \<open>q\<close> and every slot strictly between them is
  an empty line.
\<close>

definition named :: "'w state \<Rightarrow> int \<Rightarrow> bool" where
  "named s i = (case settingAt s i of Inl e \<Rightarrow> False | Inr x \<Rightarrow> name x \<noteq> None)"

definition blank :: "'w state \<Rightarrow> int \<Rightarrow> bool" where
  "blank s i = (case settingAt s i of Inl e \<Rightarrow> False | Inr x \<Rightarrow> name x = None)"

definition gap :: "'w state \<Rightarrow> int \<Rightarrow> int \<Rightarrow> bool" where
  "gap s p q \<longleftrightarrow> p < q \<and> (\<forall>j. p < j \<and> j < q \<longrightarrow> blank s j)"

text \<open>Two states with the same registry and mode.\<close>

definition sameMenu :: "'w state \<Rightarrow> 'w state \<Rightarrow> bool" where
  "sameMenu s s' \<longleftrightarrow>
     settings s' = settings s \<and> nSettings s' = nSettings s \<and> editing s' = editing s"

text \<open>
  Where the cursor can be: on index \<open>0\<close>, its initial value, or on a registered setting
  with a name.
\<close>

definition cursorValid :: "'w state \<Rightarrow> bool" where
  "cursorValid s \<longleftrightarrow>
     currentSetting s = 0 \<or> (currentSetting s < nSettings s \<and> named s (currentSetting s))"

subsection \<open>Sequences of public operations\<close>

text \<open>
  The operations an application may call after \<^verbatim>\<open>initSettings\<close>, and a run of them from
  a state; the boolean each returns is dropped and a fault ends the run.
\<close>

datatype event =
    Create "string option" "string list option" int int bool "nat option"
  | DisplayOn
  | DisplayOff
  | Up
  | Down
  | OK
  | Stop

fun handle :: "'w callbacks \<Rightarrow> event \<Rightarrow> 'w state \<Rightarrow> fault + 'w state" where
  "handle cb (Create text vals nVals curVal live setFPtr) s =
     seq (createSetting text vals nVals curVal live setFPtr s) (\<lambda>(r, s'). Inr s')"
| "handle cb DisplayOn s = seq (settingsDisplayOn s) (\<lambda>(r, s'). Inr s')"
| "handle cb DisplayOff s = seq (settingsDisplayOff s) (\<lambda>(r, s'). Inr s')"
| "handle cb Up s = seq (settingsUp cb s) (\<lambda>(r, s'). Inr s')"
| "handle cb Down s = seq (settingsDown cb s) (\<lambda>(r, s'). Inr s')"
| "handle cb OK s = seq (settingsOK cb s) (\<lambda>(r, s'). Inr s')"
| "handle cb Stop s = seq (settingsStop cb s) (\<lambda>(r, s'). Inr s')"

fun run :: "'w callbacks \<Rightarrow> event list \<Rightarrow> 'w state \<Rightarrow> fault + 'w state" where
  "run cb [] s = Inr s"
| "run cb (e # es) s = seq (handle cb e s) (run cb es)"

text \<open>The selected setting is being edited and its \<^verbatim>\<open>newValue\<close> has left \<^verbatim>\<open>currentValue\<close>.\<close>

definition diverged :: "'w state \<Rightarrow> bool" where
  "diverged s =
     (editing s \<and>
      (case settingAt s (currentSetting s) of
         Inl e \<Rightarrow> False
       | Inr x \<Rightarrow> newValue x \<noteq> currentValue x))"


text \<open>
  A browsing move is clamped when no setting with a name lies in its direction: going up
  (\<open>d > 0\<close>) every slot above the cursor and below \<^verbatim>\<open>nSettings\<close> is an empty line, going
  down every slot below the cursor down to \<open>0\<close> is. A run is unclamped when none of its
  \<open>Up\<close> and \<open>Down\<close> steps is clamped.
\<close>

definition clamped :: "int \<Rightarrow> 'w state \<Rightarrow> bool" where
  "clamped d s \<longleftrightarrow>
     \<not> editing s \<and>
     (if 0 < d then list_all (blank s) [currentSetting s + 1 .. nSettings s - 1]
      else list_all (blank s) [0 .. currentSetting s - 1])"

fun unclamped :: "'w callbacks \<Rightarrow> event list \<Rightarrow> 'w state \<Rightarrow> bool" where
  "unclamped cb [] s = True"
| "unclamped cb (e # es) s =
     (\<not> (e = Up \<and> clamped 1 s) \<and> \<not> (e = Down \<and> clamped (- 1) s) \<and>
      (case handle cb e s of Inl f \<Rightarrow> True | Inr s' \<Rightarrow> unclamped cb es s'))"

subsection \<open>Observations\<close>

text \<open>\<open>draws s s'\<close>: \<open>s'\<close> is \<open>s\<close> except for the display and \<^verbatim>\<open>topSetting\<close>.\<close>

definition draws :: "'w state \<Rightarrow> 'w state \<Rightarrow> bool" where
  "draws s s' \<longleftrightarrow> s' = s\<lparr>myTFT := myTFT s', topSetting := topSetting s'\<rparr>"

text \<open>
  The registry and the controller's mode and cursor, with the application's side: all of
  the state but the display, its ownership flag and the first displayed row.
\<close>

definition logic ::
  "'w state \<Rightarrow> Setting list option \<times> int \<times> int \<times> int \<times> bool \<times> 'w \<times> (nat \<times> Setting) list" where
  "logic s = (settings s, nSettings s, maxSettings s, currentSetting s, editing s, app s, calls s)"

text \<open>
  What is observed of a returned event: its result, the cursor, the first displayed row
  and the number of calls the driver has received.
\<close>

definition seen :: "fault + (bool \<times> 'w state) \<Rightarrow> fault + (bool \<times> int \<times> int \<times> nat)" where
  "seen m = seq m (\<lambda>(r, s). Inr (r, currentSetting s, topSetting s, length (myTFT s)))"

text \<open>The \<^verbatim>\<open>currentValue\<close> of every slot of the array.\<close>

definition currentValues :: "'w state \<Rightarrow> int list option" where
  "currentValues s = map_option (map currentValue) (settings s)"

subsection \<open>An example menu\<close>

text \<open>
  A menu in the manner of the README: a setting with three values, an empty line and a
  setting with two values, in an array of three slots. The application counts the
  invocations of its callbacks; callback \<open>0\<close> accepts every value and every other
  callback refuses.
\<close>

definition counting :: "nat callbacks" where
  "counting f x w = (f = 0, Suc w)"

definition exampleIF :: "bool \<Rightarrow> Setting" where
  "exampleIF live = \<lparr> name = Some ''Intermed Freq'',
     values' = Some [''0'', ''4500'', ''5000''], nValues = 3, currentValue = 0,
     newValue = 0, fPtr = Some 0, liveUpdate = live, can = False \<rparr>"

definition exampleLine :: Setting where
  "exampleLine = \<lparr> name = None, values' = None, nValues = 0, currentValue = 0,
     newValue = 0, fPtr = None, liveUpdate = False, can = False \<rparr>"

definition exampleTaps :: Setting where
  "exampleTaps = \<lparr> name = Some ''Carrier FTaps'', values' = Some [''50'', ''100''],
     nValues = 2, currentValue = 0, newValue = 0, fPtr = Some 0, liveUpdate = True,
     can = False \<rparr>"

text \<open>The globals after \<^verbatim>\<open>initSettings(3, tft)\<close> and the three \<^verbatim>\<open>createSetting\<close> calls.\<close>

definition exampleMenu :: "bool \<Rightarrow> nat state" where
  "exampleMenu live = \<lparr> canUseDisplay = False, myTFT = [], maxSettings = 3, nSettings = 3,
     settings = Some [exampleIF live, exampleLine, exampleTaps], currentSetting = 0,
     topSetting = 0, editing = False, app = 0, calls = [] \<rparr>"

text \<open>
  The same menu while its first setting is edited and shows the value \<open>k\<close>; \<open>c\<close> is
  what the field \<^verbatim>\<open>can\<close> holds.
\<close>

definition exampleEdit :: "bool \<Rightarrow> int \<Rightarrow> bool \<Rightarrow> nat state" where
  "exampleEdit live k c = (exampleMenu live)
     \<lparr> settings := Some [(exampleIF live)\<lparr>newValue := k, can := c\<rparr>, exampleLine, exampleTaps],
       editing := True \<rparr>"

text \<open>
  The globals after \<^verbatim>\<open>initSettings(3, tft)\<close> on a fresh program, the allocated slots
  holding empty lines, and the three \<^verbatim>\<open>createSetting\<close> calls that build the menu.
\<close>

definition exampleBoot :: "nat state" where
  "exampleBoot = snd (initSettings 3 [] (Some [exampleLine, exampleLine, exampleLine]) (start [] 0))"

definition exampleCreates :: "bool \<Rightarrow> event list" where
  "exampleCreates live =
     [Create (Some ''Intermed Freq'') (Some [''0'', ''4500'', ''5000'']) 3 0 live (Some 0),
      Create None None 0 0 False None,
      Create (Some ''Carrier FTaps'') (Some [''50'', ''100'']) 2 0 True (Some 0)]"

text \<open>
  The menu after an edit of its first setting from value \<open>0\<close> to value \<open>1\<close> was left
  by \<^verbatim>\<open>settingsDisplayOff\<close>, and after it was committed by \<^verbatim>\<open>settingsOK\<close>.
\<close>

definition exampleAbandoned :: "nat state" where
  "exampleAbandoned = (exampleMenu False)
     \<lparr> settings := Some [(exampleIF False)\<lparr>newValue := 1\<rparr>, exampleLine, exampleTaps] \<rparr>"

definition exampleCommitted :: "nat state" where
  "exampleCommitted = (exampleMenu False)
     \<lparr> settings := Some [(exampleIF False)\<lparr>currentValue := 1, newValue := 1\<rparr>, exampleLine, exampleTaps],
       app := 1, calls := [(0, (exampleIF False)\<lparr>newValue := 1\<rparr>)] \<rparr>"

text \<open>
  A menu with two empty lines between named settings, the cursor on the second setting.
\<close>

definition exampleGaps :: "nat state" where
  "exampleGaps = \<lparr> canUseDisplay = False, myTFT = [], maxSettings = 5, nSettings = 5,
     settings = Some [exampleIF True, exampleTaps, exampleLine, exampleLine, exampleTaps],
     currentSetting = 1, topSetting = 0, editing = False, app = 0, calls = [] \<rparr>"

subsection \<open>A menu longer than the display\<close>

text \<open>
  A menu of seventeen settings, one more than the display has lines, with the cursor on
  the last line of the window; \<open>on\<close> says whether the library may use the display.
\<close>

definition exampleLong :: "bool \<Rightarrow> nat state" where
  "exampleLong on = \<lparr> canUseDisplay = on, myTFT = [], maxSettings = 17, nSettings = 17,
     settings = Some (replicate 17 exampleTaps), currentSetting = 15,
     topSetting = 0, editing = False, app = 0, calls = [] \<rparr>"

subsection \<open>Invariant of the registry\<close>


section \<open>Properties\<close>

subsection \<open>Memory access and drawing\<close>

lemma settingAt_tft [simp]: "settingAt (s\<lparr>myTFT := t\<rparr>) i = settingAt s i"
  by (simp add: settingAt_def)

lemma settingAt_putSetting:
  "settingAt s i = Inr y \<Longrightarrow> settingAt (putSetting i x s) i = Inr x"
  by (auto simp: settingAt_def putSetting_def split: option.splits if_splits)

lemma printAt_ok:
  "\<exists>t. printAt x y (Some txt) clean fg bg l s = Inr (True, s\<lparr>myTFT := t\<rparr>)"
  by (cases "canUseDisplay s") (auto simp: printAt_def Let_def intro: exI[of _ "myTFT s"])

lemma displayValue_ok:
  assumes "settingAt s i = Inr x" "valueAt x (newValue x) = Inr v"
  shows "\<exists>t. displayValue i row clean fg bg s = Inr (True, s\<lparr>myTFT := t\<rparr>)"
proof -
  from assms(1) have "settings s \<noteq> None" by (auto simp: settingAt_def split: option.splits)
  with assms show ?thesis
    using printAt_ok[of 19 row v clean fg bg "TFT_CHARS - 19 - int (length v)" s]
    by (simp add: displayValue_def)
qed

lemma highlightValue_ok:
  assumes "settingAt s (currentSetting s) = Inr x" "valueAt x (newValue x) = Inr v"
  shows "\<exists>t. highlightValue s = Inr (True, s\<lparr>myTFT := t\<rparr>)"
  using displayValue_ok[OF assms] assms(1)
  by (simp add: highlightValue_def Let_def)

lemma valueAt_in_range:
  "values' x = Some vs \<Longrightarrow> 0 \<le> k \<Longrightarrow> k < int (length vs) \<Longrightarrow> \<exists>v. valueAt (x\<lparr>newValue := k\<rparr>) k = Inr v"
  by (simp add: valueAt_def)

lemma valueAt_in_range':
  "values' x = Some vs \<Longrightarrow> 0 \<le> k \<Longrightarrow> k < int (length vs) \<Longrightarrow> \<exists>v. valueAt (x\<lparr>currentValue := k\<rparr>) k = Inr v"
  by (simp add: valueAt_def)

text \<open>\<^verbatim>\<open>scrollValue\<close> when the value moves, and when it stays.\<close>

lemma scrollValue_moves:
  assumes sel: "settingAt s (currentSetting s) = Inr x"
    and vs: "values' x = Some vs" "0 \<le> newValue x + d" "newValue x + d < int (length vs)"
    and mv: "(d > 0 \<and> newValue x < nValues x - 1) \<or> (d < 0 \<and> newValue x > 0)"
  shows "\<exists>t. scrollValue cb d s =
           (if liveUpdate x
            then seq (invoke cb (x\<lparr>newValue := newValue x + d\<rparr>) (putSetting (currentSetting s) (x\<lparr>newValue := newValue x + d\<rparr>) s\<lparr>myTFT := t\<rparr>))
                  (\<lambda>(r, s2). Inr (True, putSetting (currentSetting s2) (x\<lparr>newValue := newValue x + d, can := r\<rparr>) s2))
            else Inr (True, putSetting (currentSetting s) (x\<lparr>newValue := newValue x + d\<rparr>) s\<lparr>myTFT := t\<rparr>))"
proof -
  let ?x1 = "x\<lparr>newValue := newValue x + d\<rparr>"
  let ?s1 = "putSetting (currentSetting s) ?x1 s"
  have cur: "currentSetting ?s1 = currentSetting s" by (simp add: putSetting_def)
  have a: "settingAt ?s1 (currentSetting ?s1) = Inr ?x1"
    unfolding cur by (rule settingAt_putSetting[OF sel])
  obtain v where v: "valueAt ?x1 (newValue ?x1) = Inr v"
    using valueAt_in_range[OF vs] by auto
  obtain t where t: "highlightValue ?s1 = Inr (True, ?s1\<lparr>myTFT := t\<rparr>)"
    using highlightValue_ok[OF a v] by blast
  have nn: "\<not> (settings s = None \<and> currentSetting s = 0)"
    using sel by (auto simp: settingAt_def)
  from mv have d0: "d \<noteq> 0" by auto
  show ?thesis
    apply (rule exI[of _ t])
    using mv d0 nn
    by (auto simp add: scrollValue_def sel Let_def t)
qed

lemma scrollValue_stays:
  assumes sel: "settingAt s (currentSetting s) = Inr x"
    and mv: "\<not> ((d > 0 \<and> newValue x < nValues x - 1) \<or> (d < 0 \<and> newValue x > 0))"
  shows "scrollValue cb d s = Inr (True, s)"
proof -
  have nn: "\<not> (settings s = None \<and> currentSetting s = 0)"
    using sel by (auto simp: settingAt_def)
  show ?thesis using mv nn by (auto simp add: scrollValue_def sel Let_def)
qed


lemma settingAt_fields [simp]:
  "settingAt (s\<lparr>app := w\<rparr>) i = settingAt s i"
  "settingAt (s\<lparr>calls := c\<rparr>) i = settingAt s i"
  "settingAt (s\<lparr>editing := e\<rparr>) i = settingAt s i"
  "settingAt (s\<lparr>currentSetting := k\<rparr>) i = settingAt s i"
  "settingAt (s\<lparr>topSetting := k\<rparr>) i = settingAt s i"
  "settingAt (s\<lparr>canUseDisplay := e\<rparr>) i = settingAt s i"
  by (simp_all add: settingAt_def)

lemma settingAt_put_same:
  "settingAt (putSetting i x s) i = (case settingAt s i of Inl e \<Rightarrow> Inl e | Inr y \<Rightarrow> Inr x)"
  by (auto simp: settingAt_def putSetting_def split: option.splits)

lemma putSetting_fields [simp]:
  "currentSetting (putSetting i x s) = currentSetting s"
  "editing (putSetting i x s) = editing s"
  "app (putSetting i x s) = app s"
  "calls (putSetting i x s) = calls s"
  "nSettings (putSetting i x s) = nSettings s"
  "topSetting (putSetting i x s) = topSetting s"
  "canUseDisplay (putSetting i x s) = canUseDisplay s"
  by (simp_all add: putSetting_def)

subsection \<open>What the operations leave alone\<close>

lemma seq_Inr_iff: "seq m f = Inr y \<longleftrightarrow> (\<exists>x. m = Inr x \<and> f x = Inr y)"
  by (cases m) auto

lemma draws_refl [simp]: "draws s s"
  by (simp add: draws_def)

lemma draws_trans: "draws s s1 \<Longrightarrow> draws s1 s2 \<Longrightarrow> draws s s2"
  unfolding draws_def
proof -
  assume a: "s1 = s\<lparr>myTFT := myTFT s1, topSetting := topSetting s1\<rparr>"
    and b: "s2 = s1\<lparr>myTFT := myTFT s2, topSetting := topSetting s2\<rparr>"
  have "s1\<lparr>myTFT := myTFT s2, topSetting := topSetting s2\<rparr>
        = s\<lparr>myTFT := myTFT s2, topSetting := topSetting s2\<rparr>"
    by (subst a) simp
  with b show "s2 = s\<lparr>myTFT := myTFT s2, topSetting := topSetting s2\<rparr>" by simp
qed

lemma draws_tft [simp]: "draws s (s\<lparr>myTFT := t\<rparr>)"
  by (simp add: draws_def)

lemma draws_top [simp]: "draws s (s\<lparr>topSetting := t\<rparr>)"
  by (simp add: draws_def)

lemma draws_fields:
  assumes "draws s s'"
  shows "settings s' = settings s" "editing s' = editing s" "currentSetting s' = currentSetting s"
    "nSettings s' = nSettings s" "maxSettings s' = maxSettings s" "app s' = app s"
    "calls s' = calls s" "canUseDisplay s' = canUseDisplay s"
proof -
  from assms have e: "s' = s\<lparr>myTFT := myTFT s', topSetting := topSetting s'\<rparr>"
    unfolding draws_def .
  show "settings s' = settings s" by (subst e) simp
  show "editing s' = editing s" by (subst e) simp
  show "currentSetting s' = currentSetting s" by (subst e) simp
  show "nSettings s' = nSettings s" by (subst e) simp
  show "maxSettings s' = maxSettings s" by (subst e) simp
  show "app s' = app s" by (subst e) simp
  show "calls s' = calls s" by (subst e) simp
  show "canUseDisplay s' = canUseDisplay s" by (subst e) simp
qed

lemma draws_settingAt: "draws s s' \<Longrightarrow> settingAt s' i = settingAt s i"
  by (simp add: settingAt_def draws_fields)

lemma printAt_draws:
  "printAt x y txt clean fg bg l s = Inr (r, s') \<Longrightarrow> r \<and> draws s s'"
  by (auto simp: printAt_def Let_def seq_Inr_iff draws_def split: if_splits option.splits)


lemma displayName_draws:
  "displayName i row clean fg bg s = Inr (r, s') \<Longrightarrow> draws s s'"
  by (auto simp: displayName_def seq_Inr_iff dest: printAt_draws split: if_splits)

lemma displayValue_draws:
  "displayValue i row clean fg bg s = Inr (r, s') \<Longrightarrow> draws s s'"
  by (auto simp: displayValue_def seq_Inr_iff dest: printAt_draws split: if_splits)

lemma displayValue_true:
  "displayValue i row clean fg bg s = Inr (r, s') \<Longrightarrow> settings s \<noteq> None \<Longrightarrow> r"
  by (auto simp: displayValue_def seq_Inr_iff dest: printAt_draws split: if_splits)

lemma highlightValue_draws:
  "highlightValue s = Inr (r, s') \<Longrightarrow> draws s s'"
  by (auto simp: highlightValue_def Let_def seq_Inr_iff dest: displayValue_draws)

lemma selectSetting_draws:
  "selectSetting on s = Inr (r, s') \<Longrightarrow> r \<and> draws s s'"
  by (auto simp: selectSetting_def Let_def dest: printAt_draws)

lemma displaySetting_draws:
  "displaySetting i row clean fg bg s = Inr (r, s') \<Longrightarrow> draws s s'"
  by (auto simp: displaySetting_def seq_Inr_iff
      dest!: printAt_draws displayName_draws displayValue_draws
      intro: draws_trans split: if_splits)

lemma displayRows_draws:
  "displayRows first n i result s = Inr (r, s') \<Longrightarrow> draws s s'"
proof (induction first n i result s rule: displayRows.induct)
  case (1 first n i result s)
  show ?case
  proof (cases "i < n \<and> result")
    case True
    with "1.prems" obtain r1 s1 where
      a: "displaySetting (first + i) i False WHITE BLACK s = Inr (r1, s1)"
      and b: "displayRows first n (i + 1) r1 s1 = Inr (r, s')"
      by (subst (asm) displayRows.simps) (auto simp: seq_Inr_iff)
    from "1.IH"[OF True b] displaySetting_draws[OF a]
    show ?thesis by (blast intro: draws_trans)
  next
    case False
    with "1.prems" show ?thesis
      by (subst (asm) displayRows.simps) auto
  qed
qed

lemma displaySettings_draws:
  "displaySettings first s = Inr (r, s') \<Longrightarrow> draws s s'"
  by (auto simp: displaySettings_def Let_def seq_Inr_iff
      dest!: displayRows_draws intro: draws_trans[OF draws_tft] draws_trans[OF _ draws_top]
      split: if_splits)


lemma settingAt_nonneg: "settingAt s i = Inr x \<Longrightarrow> 0 \<le> i"
  by (auto simp: settingAt_def split: option.splits if_splits)

lemma settingAt_some: "settingAt s i = Inr x \<Longrightarrow> settings s \<noteq> None"
  by (auto simp: settingAt_def split: option.splits if_splits)

lemma settingAt_put_other:
  "i \<noteq> j \<Longrightarrow> 0 \<le> i \<Longrightarrow> 0 \<le> j \<Longrightarrow> settingAt (putSetting j x s) i = settingAt s i"
  by (auto simp: settingAt_def putSetting_def nat_eq_iff split: option.splits)

lemma currentValues_put:
  "settingAt s j = Inr x \<Longrightarrow> currentValue x' = currentValue x \<Longrightarrow>
     currentValues (putSetting j x' s) = currentValues s"
  by (auto simp: settingAt_def putSetting_def currentValues_def map_update
      list_update_same_conv split: option.splits if_splits)

lemma currentValues_fields [simp]:
  "currentValues (s\<lparr>myTFT := t\<rparr>) = currentValues s"
  "currentValues (s\<lparr>app := w\<rparr>) = currentValues s"
  "currentValues (s\<lparr>calls := c\<rparr>) = currentValues s"
  "currentValues (s\<lparr>editing := e\<rparr>) = currentValues s"
  "currentValues (s\<lparr>canUseDisplay := e\<rparr>) = currentValues s"
  "currentValues (s\<lparr>currentSetting := k\<rparr>) = currentValues s"
  by (simp_all add: currentValues_def)

lemma draws_currentValues: "draws s s' \<Longrightarrow> currentValues s' = currentValues s"
  by (simp add: currentValues_def draws_fields)

lemma draws_cur:
  assumes "draws s s'"
  shows "draws (s\<lparr>currentSetting := k\<rparr>) (s'\<lparr>currentSetting := k\<rparr>)"
proof -
  from assms have e: "s' = s\<lparr>myTFT := myTFT s', topSetting := topSetting s'\<rparr>"
    unfolding draws_def .
  show ?thesis unfolding draws_def by (subst e) simp
qed

lemma scrollSetting_draws:
  assumes "scrollSetting d s = Inr (r, s')"
  shows "draws (s\<lparr>currentSetting := currentSetting s'\<rparr>) s'"
proof -
  from assms obtain found where f: "findSetting d s (currentSetting s) = Inr found"
    by (auto simp: scrollSetting_def seq_Inr_iff)
  show ?thesis
  proof (cases found)
    case None
    with assms f show ?thesis by (auto simp: scrollSetting_def)
  next
    case (Some k)
    show ?thesis
    proof (cases "k = currentSetting s")
      case True
      with assms f Some show ?thesis by (auto simp: scrollSetting_def)
    next
      case False
      with assms f Some obtain r1 s1 r3 s3 r4 where
        a: "selectSetting False s = Inr (r1, s1)"
        and b: "(if k < topSetting s1 then displaySettings k (s1\<lparr>currentSetting := k\<rparr>)
                 else if k \<ge> topSetting s1 + TFT_LINES
                 then displaySettings (k - TFT_LINES + 1) (s1\<lparr>currentSetting := k\<rparr>)
                 else Inr (True, s1\<lparr>currentSetting := k\<rparr>)) = Inr (r3, s3)"
        and c: "selectSetting True s3 = Inr (r4, s')"
        by (auto simp: scrollSetting_def seq_Inr_iff Let_def cong: if_cong)
      from a have d1: "draws (s\<lparr>currentSetting := k\<rparr>) (s1\<lparr>currentSetting := k\<rparr>)"
        by (auto dest!: selectSetting_draws intro: draws_cur)
      from b have d2: "draws (s1\<lparr>currentSetting := k\<rparr>) s3"
        by (auto dest!: displaySettings_draws split: if_splits)
      from c have d3: "draws s3 s'" by (auto dest!: selectSetting_draws)
      have d: "draws (s\<lparr>currentSetting := k\<rparr>) s'"
        using d1 d2 d3 by (blast intro: draws_trans)
      from draws_fields(3)[OF d] have "currentSetting s' = k" by simp
      with d show ?thesis by simp
    qed
  qed
qed

lemma scrollValue_effect:
  assumes "scrollValue cb d s = Inr (r, s')"
  shows "editing s' = editing s \<and> currentSetting s' = currentSetting s
       \<and> nSettings s' = nSettings s \<and> currentValues s' = currentValues s
       \<and> (\<forall>i. 0 \<le> i \<and> i \<noteq> currentSetting s \<longrightarrow> settingAt s' i = settingAt s i)"
proof (cases "settings s = None \<and> currentSetting s = 0")
  case True
  with assms show ?thesis by (auto simp: scrollValue_def)
next
  case False
  with assms obtain x where x: "settingAt s (currentSetting s) = Inr x"
    by (auto simp: scrollValue_def seq_Inr_iff)
  show ?thesis
  proof (cases "(d > 0 \<and> newValue x < nValues x - 1) \<or> (d < 0 \<and> newValue x > 0)")
    case stay: False
    from assms scrollValue_stays[OF x stay, of cb] have "s' = s" by simp
    then show ?thesis by simp
  next
    case mv: True
    then have kk: "(if d > 0 \<and> newValue x < nValues x - 1 then newValue x + d
               else if d < 0 \<and> newValue x > 0 then newValue x + d
               else newValue x) = newValue x + d" and d0: "d \<noteq> 0"
      by auto
    let ?x1 = "x\<lparr>newValue := newValue x + d\<rparr>"
    let ?s0 = "putSetting (currentSetting s) ?x1 s"
    from assms False x d0 obtain r1 s1 where
      h: "highlightValue ?s0 = Inr (r1, s1)"
      and rest: "(if liveUpdate x
                  then seq (invoke cb ?x1 s1) (\<lambda>(r, s2).
                      Inr (r1, putSetting (currentSetting s2) (?x1\<lparr>can := r\<rparr>) s2))
                  else Inr (r1, s1)) = Inr (r, s')"
      by (auto simp: scrollValue_def Let_def kk seq_Inr_iff)
    have d: "draws ?s0 s1" by (rule highlightValue_draws[OF h])
    have c0: "0 \<le> currentSetting s" by (rule settingAt_nonneg[OF x])
    have cv0: "currentValues ?s0 = currentValues s"
      by (rule currentValues_put[OF x]) simp
    have x0: "settingAt ?s0 (currentSetting s) = Inr ?x1"
      using x by (simp add: settingAt_put_same)
    show ?thesis
    proof (cases "liveUpdate x")
      case False
      with rest have "s' = s1" by simp
      with d cv0 c0 show ?thesis
        by (auto simp: draws_fields draws_settingAt draws_currentValues settingAt_put_other)
    next
      case True
      with rest obtain f where f: "fPtr x = Some f"
        and s': "s' = putSetting (currentSetting s1) (?x1\<lparr>can := fst (cb f ?x1 (app s1))\<rparr>)
                    (s1\<lparr>app := snd (cb f ?x1 (app s1)), calls := calls s1 @ [(f, ?x1)]\<rparr>)"
        by (auto simp: seq_Inr_iff invoke_def split: option.splits)
      have x1: "settingAt (s1\<lparr>app := snd (cb f ?x1 (app s1)), calls := calls s1 @ [(f, ?x1)]\<rparr>)
                  (currentSetting s1) = Inr ?x1"
        using x0 d by (simp add: draws_settingAt draws_fields)
      have "currentValues s' = currentValues s1"
        unfolding s' using currentValues_put[OF x1, of "?x1\<lparr>can := fst (cb f ?x1 (app s1))\<rparr>"]
        by simp
      with d cv0 c0 show ?thesis unfolding s'
        by (auto simp: draws_fields draws_settingAt draws_currentValues settingAt_put_other)
    qed
  qed
qed


lemma settingsOK_effect:
  assumes "settingsOK cb s = Inr (r, s')"
  shows "r \<and> editing s' = (\<not> editing s) \<and> currentSetting s' = currentSetting s
       \<and> nSettings s' = nSettings s
       \<and> (\<forall>i. 0 \<le> i \<and> i \<noteq> currentSetting s \<longrightarrow> settingAt s' i = settingAt s i)
       \<and> (editing s \<longrightarrow> (\<forall>x. settingAt s' (currentSetting s) = Inr x \<longrightarrow> newValue x = currentValue x))"
proof -
  from assms obtain s1 r3 where
    c: "(if editing s then commitValue cb s else Inr s) = Inr s1"
    and h: "highlightValue (s1\<lparr>editing := \<not> editing s1\<rparr>) = Inr (r3, s')"
    and r: "r"
    by (auto simp: settingsOK_def seq_Inr_iff Let_def)
  have p: "editing s1 = editing s \<and> currentSetting s1 = currentSetting s
       \<and> nSettings s1 = nSettings s
       \<and> (\<forall>i. 0 \<le> i \<and> i \<noteq> currentSetting s \<longrightarrow> settingAt s1 i = settingAt s i)
       \<and> (editing s \<longrightarrow> (\<forall>x. settingAt s1 (currentSetting s) = Inr x \<longrightarrow> newValue x = currentValue x))"
  proof (cases "editing s")
    case False
    with c show ?thesis by simp
  next
    case True
    with c obtain x where x: "settingAt s (currentSetting s) = Inr x"
      by (auto simp: commitValue_def seq_Inr_iff)
    have c0: "0 \<le> currentSetting s" by (rule settingAt_nonneg[OF x])
    from c True x c0 show ?thesis
      by (auto simp: commitValue_def seq_Inr_iff invoke_def settingAt_put_same
          settingAt_put_other split: if_splits option.splits)
  qed
  have d: "draws (s1\<lparr>editing := \<not> editing s1\<rparr>) s'" by (rule highlightValue_draws[OF h])
  from p r show ?thesis
    by (simp add: draws_fields[OF d] draws_settingAt[OF d])
qed

lemma settingsStop_effect:
  assumes "settingsStop cb s = Inr (r, s')"
  shows "r \<and> editing s' = editing s \<and> currentSetting s' = currentSetting s
       \<and> nSettings s' = nSettings s \<and> currentValues s' = currentValues s
       \<and> (\<forall>i. 0 \<le> i \<and> i \<noteq> currentSetting s \<longrightarrow> settingAt s' i = settingAt s i)
       \<and> (editing s \<longrightarrow> (\<forall>x. settingAt s' (currentSetting s) = Inr x \<longrightarrow> newValue x = currentValue x))"
proof (cases "editing s")
  case False
  with assms show ?thesis by (auto simp: settingsStop_def)
next
  case True
  with assms obtain x where x: "settingAt s (currentSetting s) = Inr x"
    by (auto simp: settingsStop_def resetNewValue_def seq_Inr_iff)
  have c0: "0 \<le> currentSetting s" by (rule settingAt_nonneg[OF x])
  have cv: "currentValues (putSetting (currentSetting s) (x\<lparr>newValue := currentValue x\<rparr>) s)
            = currentValues s"
    by (rule currentValues_put[OF x]) simp
  from assms True x c0 cv show ?thesis
    by (auto simp: settingsStop_def resetNewValue_def Let_def seq_Inr_iff invoke_def
        settingAt_put_same settingAt_put_other split: if_splits option.splits)
qed

lemma settingAt_nSettings: "settingAt (s\<lparr>nSettings := k\<rparr>) i = settingAt s i"
  by (simp add: settingAt_def)

lemma createSetting_effect:
  assumes "createSetting text vals nVals curVal live setFPtr s = Inr (ro, s')"
  shows "editing s' = editing s \<and> currentSetting s' = currentSetting s
       \<and> (\<forall>i. 0 \<le> i \<and> i \<noteq> nSettings s \<longrightarrow> settingAt s' i = settingAt s i)
       \<and> (s' = s \<or> (nSettings s' = nSettings s + 1 \<and>
            (\<forall>x. settingAt s' (nSettings s) = Inr x \<longrightarrow> newValue x = currentValue x)))"
proof (cases "nSettings s = maxSettings s")
  case True
  with assms show ?thesis by (simp add: createSetting_def)
next
  case False
  with assms obtain x where x: "settingAt s (nSettings s) = Inr x"
    by (auto simp: createSetting_def seq_Inr_iff)
  have c0: "0 \<le> nSettings s" by (rule settingAt_nonneg[OF x])
  from assms False x c0 show ?thesis
    by (auto simp: createSetting_def seq_Inr_iff settingAt_put_same settingAt_put_other
        settingAt_nSettings)
qed


lemma settingsDisplayOn_draws:
  assumes "settingsDisplayOn s = Inr (r, s')"
  shows "draws (s\<lparr>canUseDisplay := True\<rparr>) s'"
  using assms
  by (auto simp: settingsDisplayOn_def Let_def seq_Inr_iff
      dest!: displaySettings_draws selectSetting_draws intro: draws_trans)

lemma exampleMenu_built: "run cb (exampleCreates live) exampleBoot = Inr (exampleMenu live)"
  by (simp add: exampleCreates_def exampleBoot_def exampleMenu_def initSettings_def start_def
      createSetting_def settingAt_def putSetting_def exampleIF_def exampleLine_def exampleTaps_def)

subsection \<open>Evaluating the example\<close>

lemmas example_defs = exampleCreates_def exampleBoot_def exampleMenu_def exampleGaps_def
  initSettings_def start_def
  exampleIF_def exampleLine_def exampleTaps_def exampleAbandoned_def exampleCommitted_def
  counting_def

lemmas code_defs = createSetting_def settingAt_def putSetting_def valueAt_def invoke_def
  printAt_def displayValue_def highlightValue_def scrollValue_def settingsUp_def
  settingsDown_def settingsOK_def commitValue_def settingsStop_def resetNewValue_def settingsDisplayOff_def
  diverged_def Let_def

lemmas browse_defs = scrollSetting_def findSetting.simps selectSetting_def clamped_def named_def
  blank_def upto.simps
  TFT_LINES_def TFT_HEIGHT_def CHAR_HEIGHT_def

subsection \<open>Editing with live update\<close>

text \<open>
  C2. Let the selected setting have \<^verbatim>\<open>liveUpdate\<close> set, a callback \<open>f\<close> and indices
  inside its values. In editing mode, an \<^verbatim>\<open>settingsUp\<close> below the last value and a
  \<^verbatim>\<open>settingsDown\<close> above the first value each invoke the callback exactly once, on the
  setting with the moved \<^verbatim>\<open>newValue\<close>, store what it returned in \<^verbatim>\<open>can\<close> and keep the
  moved \<^verbatim>\<open>newValue\<close> whatever it returned. \<^verbatim>\<open>settingsOK\<close> with \<^verbatim>\<open>newValue\<close> different
  from \<^verbatim>\<open>currentValue\<close> invokes no callback; it copies \<^verbatim>\<open>newValue\<close> to
  \<^verbatim>\<open>currentValue\<close> when \<^verbatim>\<open>can\<close> holds and \<^verbatim>\<open>currentValue\<close> to \<^verbatim>\<open>newValue\<close> otherwise.
\<close>

theorem live_update_scroll_and_commit:
  assumes "editing s"
    and "settingAt s (currentSetting s) = Inr x"
    and "liveUpdate x"
    and "fPtr x = Some f"
    and "values' x = Some vs"
    and "int (length vs) = nValues x"
    and "0 \<le> newValue x" and "newValue x < nValues x"
    and "0 \<le> currentValue x" and "currentValue x < nValues x"
  shows "(newValue x < nValues x - 1 \<longrightarrow>
           (\<exists>s'. settingsUp cb s = Inr (True, s')
              \<and> calls s' = calls s @ [(f, x\<lparr>newValue := newValue x + 1\<rparr>)]
              \<and> app s' = snd (cb f (x\<lparr>newValue := newValue x + 1\<rparr>) (app s))
              \<and> settingAt s' (currentSetting s') =
                  Inr (x\<lparr>newValue := newValue x + 1,
                         can := fst (cb f (x\<lparr>newValue := newValue x + 1\<rparr>) (app s))\<rparr>)))
       \<and> (0 < newValue x \<longrightarrow>
           (\<exists>s'. settingsDown cb s = Inr (True, s')
              \<and> calls s' = calls s @ [(f, x\<lparr>newValue := newValue x - 1\<rparr>)]
              \<and> app s' = snd (cb f (x\<lparr>newValue := newValue x - 1\<rparr>) (app s))
              \<and> settingAt s' (currentSetting s') =
                  Inr (x\<lparr>newValue := newValue x - 1,
                         can := fst (cb f (x\<lparr>newValue := newValue x - 1\<rparr>) (app s))\<rparr>)))
       \<and> (newValue x \<noteq> currentValue x \<longrightarrow>
           (\<exists>s'. settingsOK cb s = Inr (True, s')
              \<and> calls s' = calls s \<and> app s' = app s
              \<and> settingAt s' (currentSetting s') =
                  Inr (if can x then x\<lparr>currentValue := newValue x\<rparr>
                       else x\<lparr>newValue := currentValue x\<rparr>)))"
proof (intro conjI impI)
  assume up: "newValue x < nValues x - 1"
  obtain t where "scrollValue cb 1 s =
      seq (invoke cb (x\<lparr>newValue := newValue x + 1\<rparr>)
             (putSetting (currentSetting s) (x\<lparr>newValue := newValue x + 1\<rparr>) s\<lparr>myTFT := t\<rparr>))
          (\<lambda>(r, s2). Inr (True, putSetting (currentSetting s2) (x\<lparr>newValue := newValue x + 1, can := r\<rparr>) s2))"
    using scrollValue_moves[OF assms(2) assms(5), of 1 cb] assms up by auto
  then show "\<exists>s'. settingsUp cb s = Inr (True, s')
              \<and> calls s' = calls s @ [(f, x\<lparr>newValue := newValue x + 1\<rparr>)]
              \<and> app s' = snd (cb f (x\<lparr>newValue := newValue x + 1\<rparr>) (app s))
              \<and> settingAt s' (currentSetting s') =
                  Inr (x\<lparr>newValue := newValue x + 1,
                         can := fst (cb f (x\<lparr>newValue := newValue x + 1\<rparr>) (app s))\<rparr>)"
    using assms(1,2,4)
    by (simp add: settingsUp_def invoke_def settingAt_put_same)
next
  assume down: "0 < newValue x"
  obtain t where "scrollValue cb (- 1) s =
      seq (invoke cb (x\<lparr>newValue := newValue x + (- 1)\<rparr>)
             (putSetting (currentSetting s) (x\<lparr>newValue := newValue x + (- 1)\<rparr>) s\<lparr>myTFT := t\<rparr>))
          (\<lambda>(r, s2). Inr (True, putSetting (currentSetting s2) (x\<lparr>newValue := newValue x + (- 1), can := r\<rparr>) s2))"
    using scrollValue_moves[OF assms(2) assms(5), of "- 1" cb] assms down by auto
  then show "\<exists>s'. settingsDown cb s = Inr (True, s')
              \<and> calls s' = calls s @ [(f, x\<lparr>newValue := newValue x - 1\<rparr>)]
              \<and> app s' = snd (cb f (x\<lparr>newValue := newValue x - 1\<rparr>) (app s))
              \<and> settingAt s' (currentSetting s') =
                  Inr (x\<lparr>newValue := newValue x - 1,
                         can := fst (cb f (x\<lparr>newValue := newValue x - 1\<rparr>) (app s))\<rparr>)"
    using assms(1,2,4)
    by (simp add: settingsDown_def invoke_def settingAt_put_same)
next
  assume ne: "newValue x \<noteq> currentValue x"
  let ?x' = "if can x then x\<lparr>currentValue := newValue x\<rparr> else x\<lparr>newValue := currentValue x\<rparr>"
  let ?s1 = "(putSetting (currentSetting s) ?x' s)\<lparr>editing := False\<rparr>"
  have a: "settingAt ?s1 (currentSetting ?s1) = Inr ?x'"
    using assms(2) by (simp add: settingAt_put_same)
  obtain v where v: "valueAt ?x' (newValue ?x') = Inr v"
    using assms by (cases "can x") (auto simp: valueAt_def)
  obtain t where t: "highlightValue ?s1 = Inr (True, ?s1\<lparr>myTFT := t\<rparr>)"
    using highlightValue_ok[OF a v] by blast
  have "settingsOK cb s = Inr (True, ?s1\<lparr>myTFT := t\<rparr>)"
    using assms(1,2,3) ne t by (auto simp add: settingsOK_def commitValue_def Let_def)
  then show "\<exists>s'. settingsOK cb s = Inr (True, s')
              \<and> calls s' = calls s \<and> app s' = app s
              \<and> settingAt s' (currentSetting s') = Inr ?x'"
    using assms(2) by (simp add: settingAt_put_same)
qed


theorem live_update_scroll_and_commit_witness:
  "(\<exists>s'. settingsUp counting (exampleEdit True 1 True) = Inr (True, s')
      \<and> calls s' = [(0, (exampleIF True)\<lparr>newValue := 2, can := True\<rparr>)]
      \<and> app s' = 1
      \<and> settingAt s' (currentSetting s') = Inr ((exampleIF True)\<lparr>newValue := 2, can := True\<rparr>))
   \<and> (\<exists>s'. settingsDown counting (exampleEdit True 1 True) = Inr (True, s')
      \<and> calls s' = [(0, (exampleIF True)\<lparr>newValue := 0, can := True\<rparr>)]
      \<and> app s' = 1
      \<and> settingAt s' (currentSetting s') = Inr ((exampleIF True)\<lparr>newValue := 0, can := True\<rparr>))
   \<and> (\<exists>s'. settingsOK counting (exampleEdit True 1 True) = Inr (True, s')
      \<and> calls s' = [] \<and> app s' = 0
      \<and> settingAt s' (currentSetting s') =
           Inr ((exampleIF True)\<lparr>currentValue := 1, newValue := 1, can := True\<rparr>))"
  using live_update_scroll_and_commit [of "exampleEdit True 1 True"
      "(exampleIF True)\<lparr>newValue := 1, can := True\<rparr>" 0 "[''0'', ''4500'', ''5000'']" counting]
  by (simp add: exampleEdit_def exampleMenu_def exampleIF_def settingAt_def counting_def)

subsection \<open>Editing without live update\<close>

text \<open>
  C3. Let the selected setting have \<^verbatim>\<open>liveUpdate\<close> clear, a callback \<open>f\<close> and indices
  inside its values. In editing mode \<^verbatim>\<open>settingsUp\<close> and \<^verbatim>\<open>settingsDown\<close> invoke no
  callback. \<^verbatim>\<open>settingsOK\<close> invokes none when \<^verbatim>\<open>newValue\<close> equals \<^verbatim>\<open>currentValue\<close>;
  when they differ it invokes the callback exactly once, on the setting as it is, and
  then \<^verbatim>\<open>currentValue\<close> becomes the former \<^verbatim>\<open>newValue\<close> if the callback returned true,
  while \<^verbatim>\<open>currentValue\<close> is kept and \<^verbatim>\<open>newValue\<close> is reset to it if the callback
  returned false.
\<close>

theorem deferred_update_scroll_and_commit:
  assumes "editing s"
    and "settingAt s (currentSetting s) = Inr x"
    and "\<not> liveUpdate x"
    and "fPtr x = Some f"
    and "values' x = Some vs"
    and "int (length vs) = nValues x"
    and "0 \<le> newValue x" and "newValue x < nValues x"
    and "0 \<le> currentValue x" and "currentValue x < nValues x"
  shows "(\<exists>s'. settingsUp cb s = Inr (True, s') \<and> calls s' = calls s \<and> app s' = app s)
       \<and> (\<exists>s'. settingsDown cb s = Inr (True, s') \<and> calls s' = calls s \<and> app s' = app s)
       \<and> (newValue x = currentValue x \<longrightarrow>
           (\<exists>s'. settingsOK cb s = Inr (True, s')
              \<and> calls s' = calls s \<and> app s' = app s
              \<and> settingAt s' (currentSetting s') = Inr x))
       \<and> (newValue x \<noteq> currentValue x \<longrightarrow>
           (\<exists>s'. settingsOK cb s = Inr (True, s')
              \<and> calls s' = calls s @ [(f, x)]
              \<and> app s' = snd (cb f x (app s))
              \<and> settingAt s' (currentSetting s') =
                  Inr (if fst (cb f x (app s)) then x\<lparr>currentValue := newValue x\<rparr>
                       else x\<lparr>newValue := currentValue x\<rparr>)))"
proof (intro conjI impI)
  show "\<exists>s'. settingsUp cb s = Inr (True, s') \<and> calls s' = calls s \<and> app s' = app s"
  proof (cases "newValue x < nValues x - 1")
    case True
    then obtain t where "scrollValue cb 1 s =
        Inr (True, putSetting (currentSetting s) (x\<lparr>newValue := newValue x + 1\<rparr>) s\<lparr>myTFT := t\<rparr>)"
      using scrollValue_moves[OF assms(2) assms(5), of 1 cb] assms by auto
    then show ?thesis using assms(1) by (simp add: settingsUp_def)
  next
    case False
    then have "scrollValue cb 1 s = Inr (True, s)"
      using scrollValue_stays[OF assms(2), of 1 cb] by simp
    then show ?thesis using assms(1) by (simp add: settingsUp_def)
  qed
next
  show "\<exists>s'. settingsDown cb s = Inr (True, s') \<and> calls s' = calls s \<and> app s' = app s"
  proof (cases "0 < newValue x")
    case True
    then obtain t where "scrollValue cb (- 1) s =
        Inr (True, putSetting (currentSetting s) (x\<lparr>newValue := newValue x + (- 1)\<rparr>) s\<lparr>myTFT := t\<rparr>)"
      using scrollValue_moves[OF assms(2) assms(5), of "- 1" cb] assms by auto
    then show ?thesis using assms(1) by (simp add: settingsDown_def)
  next
    case False
    then have "scrollValue cb (- 1) s = Inr (True, s)"
      using scrollValue_stays[OF assms(2), of "- 1" cb] by simp
    then show ?thesis using assms(1) by (simp add: settingsDown_def)
  qed
next
  assume eq: "newValue x = currentValue x"
  let ?s1 = "s\<lparr>editing := False\<rparr>"
  have a: "settingAt ?s1 (currentSetting ?s1) = Inr x"
    using assms(2) by simp
  obtain v where v: "valueAt x (newValue x) = Inr v"
    using assms by (auto simp: valueAt_def)
  obtain t where t: "highlightValue ?s1 = Inr (True, ?s1\<lparr>myTFT := t\<rparr>)"
    using highlightValue_ok[OF a v] by blast
  have "settingsOK cb s = Inr (True, ?s1\<lparr>myTFT := t\<rparr>)"
    using assms(1,2) eq t by (simp add: settingsOK_def commitValue_def Let_def)
  then show "\<exists>s'. settingsOK cb s = Inr (True, s')
              \<and> calls s' = calls s \<and> app s' = app s
              \<and> settingAt s' (currentSetting s') = Inr x"
    using assms(2) by simp
next
  assume ne: "newValue x \<noteq> currentValue x"
  let ?r = "fst (cb f x (app s))"
  let ?x' = "if ?r then x\<lparr>currentValue := newValue x\<rparr> else x\<lparr>newValue := currentValue x\<rparr>"
  let ?s0 = "s\<lparr>app := snd (cb f x (app s)), calls := calls s @ [(f, x)]\<rparr>"
  let ?s1 = "(putSetting (currentSetting s) ?x' ?s0)\<lparr>editing := False\<rparr>"
  have a: "settingAt ?s1 (currentSetting ?s1) = Inr ?x'"
    using assms(2) by (simp add: settingAt_put_same)
  obtain v where v: "valueAt ?x' (newValue ?x') = Inr v"
    using assms by (cases ?r) (auto simp: valueAt_def)
  obtain t where t: "highlightValue ?s1 = Inr (True, ?s1\<lparr>myTFT := t\<rparr>)"
    using highlightValue_ok[OF a v] by blast
  have "settingsOK cb s = Inr (True, ?s1\<lparr>myTFT := t\<rparr>)"
    using assms(1,2,3,4) ne t by (auto simp add: settingsOK_def commitValue_def Let_def invoke_def)
  then show "\<exists>s'. settingsOK cb s = Inr (True, s')
              \<and> calls s' = calls s @ [(f, x)]
              \<and> app s' = snd (cb f x (app s))
              \<and> settingAt s' (currentSetting s') = Inr ?x'"
    using assms(2) by (simp add: settingAt_put_same)
qed

theorem deferred_update_scroll_and_commit_witness:
  "(\<exists>s'. settingsUp counting (exampleEdit False 1 False) = Inr (True, s')
      \<and> calls s' = [] \<and> app s' = 0)
   \<and> (\<exists>s'. settingsDown counting (exampleEdit False 1 False) = Inr (True, s')
      \<and> calls s' = [] \<and> app s' = 0)
   \<and> (\<exists>s'. settingsOK counting (exampleEdit False 1 False) = Inr (True, s')
      \<and> calls s' = [(0, (exampleIF False)\<lparr>newValue := 1\<rparr>)]
      \<and> app s' = 1
      \<and> settingAt s' (currentSetting s') =
           Inr ((exampleIF False)\<lparr>currentValue := 1, newValue := 1\<rparr>))"
  using deferred_update_scroll_and_commit [of "exampleEdit False 1 False"
      "(exampleIF False)\<lparr>newValue := 1\<rparr>" 0 "[''0'', ''4500'', ''5000'']" counting]
  by (simp add: exampleEdit_def exampleMenu_def exampleIF_def settingAt_def counting_def)

subsection \<open>Cancel\<close>

text \<open>
  C4. In editing mode \<^verbatim>\<open>settingsStop\<close> returns true, sets \<^verbatim>\<open>newValue\<close> of the
  selected setting to its \<^verbatim>\<open>currentValue\<close> and changes no other field of it, whatever
  \<^verbatim>\<open>liveUpdate\<close> is. If \<^verbatim>\<open>liveUpdate\<close> and \<^verbatim>\<open>can\<close> hold and \<^verbatim>\<open>newValue\<close> differed from
  \<^verbatim>\<open>currentValue\<close>, the callback is invoked exactly once, on the reverted setting, and
  what it returns is stored nowhere; otherwise no callback is invoked.
\<close>

theorem cancel_reverts_pending:
  assumes "editing s"
    and "settingAt s (currentSetting s) = Inr x"
    and "liveUpdate x \<and> can x \<and> newValue x \<noteq> currentValue x \<longrightarrow> fPtr x = Some f"
  shows "\<exists>s'. settingsStop cb s = Inr (True, s')
           \<and> settingAt s' (currentSetting s') = Inr (x\<lparr>newValue := currentValue x\<rparr>)
           \<and> (if liveUpdate x \<and> can x \<and> newValue x \<noteq> currentValue x
              then calls s' = calls s @ [(f, x\<lparr>newValue := currentValue x\<rparr>)]
                 \<and> app s' = snd (cb f (x\<lparr>newValue := currentValue x\<rparr>) (app s))
              else calls s' = calls s \<and> app s' = app s)"
  using assms
  by (auto simp add: settingsStop_def resetNewValue_def Let_def invoke_def settingAt_put_same)

theorem cancel_reverts_pending_witness:
  "\<exists>s'. settingsStop counting (exampleEdit True 1 True) = Inr (True, s')
      \<and> settingAt s' (currentSetting s') = Inr ((exampleIF True)\<lparr>newValue := 0, can := True\<rparr>)
      \<and> calls s' = [(0, (exampleIF True)\<lparr>newValue := 0, can := True\<rparr>)]
      \<and> app s' = 1"
  using cancel_reverts_pending [of "exampleEdit True 1 True"
      "(exampleIF True)\<lparr>newValue := 1, can := True\<rparr>" 0 counting]
  by (simp add: exampleEdit_def exampleMenu_def exampleIF_def settingAt_def counting_def)

text \<open>
  C5. The claim is that \<^verbatim>\<open>settingsStop\<close> in editing mode leaves editing mode. On the
  example menu, \<^verbatim>\<open>settingsOK\<close>, \<^verbatim>\<open>settingsUp\<close>, \<^verbatim>\<open>settingsStop\<close> in this order all
  succeed, and the flag \<^verbatim>\<open>editing\<close> is set after each of them: \<^verbatim>\<open>settingsStop\<close> never
  assigns it.
\<close>

theorem cancel_stays_in_editing:
  "seq (settingsOK counting (exampleMenu True)) (\<lambda>(r1, s1).
   seq (settingsUp counting s1) (\<lambda>(r2, s2).
   seq (settingsStop counting s2) (\<lambda>(r3, s3).
   Inr (editing s1, editing s2, r3, editing s3)))) = Inr (True, True, True, True)"
  by (simp add: settingsOK_def commitValue_def settingsUp_def settingsStop_def resetNewValue_def scrollValue_def
      highlightValue_def displayValue_def printAt_def settingAt_def putSetting_def valueAt_def
      invoke_def Let_def exampleMenu_def exampleIF_def exampleLine_def exampleTaps_def counting_def)

subsection \<open>Scrolling a value\<close>

text \<open>
  C6. Let the selected setting have \<^verbatim>\<open>newValue\<close> inside its \<^verbatim>\<open>nValues\<close> values. In
  editing mode \<^verbatim>\<open>settingsUp\<close> moves \<^verbatim>\<open>newValue\<close> to the smaller of \<^verbatim>\<open>newValue + 1\<close> and
  \<^verbatim>\<open>nValues - 1\<close>, and \<^verbatim>\<open>settingsDown\<close> to the larger of \<^verbatim>\<open>newValue - 1\<close> and \<open>0\<close>. At
  the last value \<^verbatim>\<open>settingsUp\<close>, and at value \<open>0\<close> \<^verbatim>\<open>settingsDown\<close>, changes nothing
  at all.
\<close>

theorem value_scroll_clamped:
  assumes "editing s"
    and "settingAt s (currentSetting s) = Inr x"
    and "values' x = Some vs"
    and "int (length vs) = nValues x"
    and "0 \<le> newValue x" and "newValue x < nValues x"
    and "liveUpdate x \<longrightarrow> fPtr x \<noteq> None"
  shows "(\<exists>s' x'. settingsUp cb s = Inr (True, s')
            \<and> settingAt s' (currentSetting s') = Inr x'
            \<and> newValue x' = min (newValue x + 1) (nValues x - 1))
       \<and> (\<exists>s' x'. settingsDown cb s = Inr (True, s')
            \<and> settingAt s' (currentSetting s') = Inr x'
            \<and> newValue x' = max (newValue x - 1) 0)
       \<and> (newValue x = nValues x - 1 \<longrightarrow> settingsUp cb s = Inr (True, s))
       \<and> (newValue x = 0 \<longrightarrow> settingsDown cb s = Inr (True, s))"
proof (intro conjI impI)
  show "\<exists>s' x'. settingsUp cb s = Inr (True, s')
            \<and> settingAt s' (currentSetting s') = Inr x'
            \<and> newValue x' = min (newValue x + 1) (nValues x - 1)"
  proof (cases "newValue x < nValues x - 1")
    case True
    obtain t where "scrollValue cb 1 s =
           (if liveUpdate x
            then seq (invoke cb (x\<lparr>newValue := newValue x + 1\<rparr>) (putSetting (currentSetting s) (x\<lparr>newValue := newValue x + 1\<rparr>) s\<lparr>myTFT := t\<rparr>))
                  (\<lambda>(r, s2). Inr (True, putSetting (currentSetting s2) (x\<lparr>newValue := newValue x + 1, can := r\<rparr>) s2))
            else Inr (True, putSetting (currentSetting s) (x\<lparr>newValue := newValue x + 1\<rparr>) s\<lparr>myTFT := t\<rparr>))"
      using scrollValue_moves[OF assms(2) assms(3), of 1 cb] assms True by auto
    then show ?thesis using assms(1,2,7) True
      by (auto simp add: settingsUp_def invoke_def settingAt_put_same)
  next
    case False
    then have "scrollValue cb 1 s = Inr (True, s)"
      using scrollValue_stays[OF assms(2), of 1 cb] by simp
    then show ?thesis using assms(1,2,6) False by (simp add: settingsUp_def)
  qed
next
  show "\<exists>s' x'. settingsDown cb s = Inr (True, s')
            \<and> settingAt s' (currentSetting s') = Inr x'
            \<and> newValue x' = max (newValue x - 1) 0"
  proof (cases "0 < newValue x")
    case True
    obtain t where "scrollValue cb (- 1) s =
           (if liveUpdate x
            then seq (invoke cb (x\<lparr>newValue := newValue x + (- 1)\<rparr>) (putSetting (currentSetting s) (x\<lparr>newValue := newValue x + (- 1)\<rparr>) s\<lparr>myTFT := t\<rparr>))
                  (\<lambda>(r, s2). Inr (True, putSetting (currentSetting s2) (x\<lparr>newValue := newValue x + (- 1), can := r\<rparr>) s2))
            else Inr (True, putSetting (currentSetting s) (x\<lparr>newValue := newValue x + (- 1)\<rparr>) s\<lparr>myTFT := t\<rparr>))"
      using scrollValue_moves[OF assms(2) assms(3), of "- 1" cb] assms True by auto
    then show ?thesis using assms(1,2,7) True
      by (auto simp add: settingsDown_def invoke_def settingAt_put_same)
  next
    case False
    then have "scrollValue cb (- 1) s = Inr (True, s)"
      using scrollValue_stays[OF assms(2), of "- 1" cb] by simp
    then show ?thesis using assms(1,2,5) False by (simp add: settingsDown_def)
  qed
next
  assume "newValue x = nValues x - 1"
  then show "settingsUp cb s = Inr (True, s)"
    using scrollValue_stays[OF assms(2), of 1 cb] assms(1) by (simp add: settingsUp_def)
next
  assume "newValue x = 0"
  then show "settingsDown cb s = Inr (True, s)"
    using scrollValue_stays[OF assms(2), of "- 1" cb] assms(1) by (simp add: settingsDown_def)
qed

theorem value_scroll_clamped_witness:
  "settingsUp counting (exampleEdit True 2 True) = Inr (True, exampleEdit True 2 True)
   \<and> (\<exists>s' x'. settingsDown counting (exampleEdit True 2 True) = Inr (True, s')
        \<and> settingAt s' (currentSetting s') = Inr x' \<and> newValue x' = 1)
   \<and> settingsDown counting (exampleEdit False 0 False) = Inr (True, exampleEdit False 0 False)
   \<and> (\<exists>s' x'. settingsUp counting (exampleEdit False 0 False) = Inr (True, s')
        \<and> settingAt s' (currentSetting s') = Inr x' \<and> newValue x' = 1)"
  using value_scroll_clamped [of "exampleEdit True 2 True"
      "(exampleIF True)\<lparr>newValue := 2, can := True\<rparr>" "[''0'', ''4500'', ''5000'']" counting]
    value_scroll_clamped [of "exampleEdit False 0 False"
      "(exampleIF False)\<lparr>newValue := 0, can := False\<rparr>" "[''0'', ''4500'', ''5000'']" counting]
  by (simp add: exampleEdit_def exampleMenu_def exampleIF_def settingAt_def)

subsection \<open>Pending and current value outside editing\<close>











subsection \<open>Who writes the current value\<close>

text \<open>
  C10. \<^verbatim>\<open>settingsUp\<close> and \<^verbatim>\<open>settingsDown\<close>, in either mode and whatever \<^verbatim>\<open>liveUpdate\<close>
  is, leave the \<^verbatim>\<open>currentValue\<close> of every slot as it was, and so do \<^verbatim>\<open>settingsStop\<close>,
  \<^verbatim>\<open>settingsDisplayOn\<close> and \<^verbatim>\<open>settingsDisplayOff\<close>; \<^verbatim>\<open>createSetting\<close> leaves every
  setting registered before it untouched; and \<^verbatim>\<open>settingsOK\<close> in browsing mode, which
  only enters editing mode, leaves every \<^verbatim>\<open>currentValue\<close> as it was too. So after its
  creation the \<^verbatim>\<open>currentValue\<close> of a setting is written by \<^verbatim>\<open>settingsOK\<close> in editing
  mode only.
\<close>

theorem currentValue_written_only_by_commit:
  "(settingsUp cb s = Inr (r, s') \<longrightarrow> currentValues s' = currentValues s)
 \<and> (settingsDown cb s = Inr (r, s') \<longrightarrow> currentValues s' = currentValues s)
 \<and> (settingsStop cb s = Inr (r, s') \<longrightarrow> currentValues s' = currentValues s)
 \<and> (settingsDisplayOn s = Inr (r, s') \<longrightarrow> currentValues s' = currentValues s)
 \<and> (settingsDisplayOff s = Inr (r, s') \<longrightarrow> currentValues s' = currentValues s)
 \<and> (createSetting nm vals nVals curVal live setFPtr s = Inr (ro, s') \<longrightarrow>
       (\<forall>i. 0 \<le> i \<and> i < nSettings s \<longrightarrow> settingAt s' i = settingAt s i))
 \<and> (\<not> editing s \<longrightarrow> settingsOK cb s = Inr (r, s') \<longrightarrow> currentValues s' = currentValues s)"
proof (intro conjI impI)
  assume u: "settingsUp cb s = Inr (r, s')"
  show "currentValues s' = currentValues s"
  proof (cases "editing s")
    case True
    with u have "scrollValue cb 1 s = Inr (r, s')" by (simp add: settingsUp_def)
    from scrollValue_effect[OF this] show ?thesis by blast
  next
    case False
    with u have "scrollSetting 1 s = Inr (r, s')" by (simp add: settingsUp_def)
    from draws_currentValues[OF scrollSetting_draws[OF this]] show ?thesis by simp
  qed
next
  assume u: "settingsDown cb s = Inr (r, s')"
  show "currentValues s' = currentValues s"
  proof (cases "editing s")
    case True
    with u have "scrollValue cb (- 1) s = Inr (r, s')" by (simp add: settingsDown_def)
    from scrollValue_effect[OF this] show ?thesis by blast
  next
    case False
    with u have "scrollSetting (- 1) s = Inr (r, s')" by (simp add: settingsDown_def)
    from draws_currentValues[OF scrollSetting_draws[OF this]] show ?thesis by simp
  qed
next
  assume "settingsStop cb s = Inr (r, s')"
  from settingsStop_effect[OF this] show "currentValues s' = currentValues s" by blast
next
  assume "settingsDisplayOn s = Inr (r, s')"
  from draws_currentValues[OF settingsDisplayOn_draws[OF this]]
  show "currentValues s' = currentValues s" by simp
next
  assume "settingsDisplayOff s = Inr (r, s')"
  then show "currentValues s' = currentValues s"
    by (auto simp: settingsDisplayOff_def)
next
  assume "createSetting nm vals nVals curVal live setFPtr s = Inr (ro, s')"
  from createSetting_effect[OF this]
  show "\<forall>i. 0 \<le> i \<and> i < nSettings s \<longrightarrow> settingAt s' i = settingAt s i"
    by auto
next
  assume e: "\<not> editing s" and a: "settingsOK cb s = Inr (r, s')"
  from a e obtain r3 where h: "highlightValue (s\<lparr>editing := True\<rparr>) = Inr (r3, s')"
    by (auto simp: settingsOK_def seq_Inr_iff Let_def)
  from draws_currentValues[OF highlightValue_draws[OF h]]
  show "currentValues s' = currentValues s" by simp
qed

theorem currentValue_written_only_by_commit_witness:
  "settingsUp counting (exampleEdit True 1 True)
     = Inr (True, (exampleEdit True 2 True)
          \<lparr>app := 1, calls := [(0, (exampleIF True)\<lparr>newValue := 2, can := True\<rparr>)]\<rparr>)
   \<and> currentValues ((exampleEdit True 2 True)
          \<lparr>app := 1, calls := [(0, (exampleIF True)\<lparr>newValue := 2, can := True\<rparr>)]\<rparr>)
       = currentValues (exampleEdit True 1 True)
   \<and> settingsUp counting (exampleMenu True) = Inr (True, (exampleMenu True)\<lparr>currentSetting := 2\<rparr>)
   \<and> currentValues ((exampleMenu True)\<lparr>currentSetting := 2\<rparr>) = currentValues (exampleMenu True)
   \<and> \<not> editing (exampleMenu True)
   \<and> settingsOK counting (exampleMenu True) = Inr (True, (exampleMenu True)\<lparr>editing := True\<rparr>)
   \<and> currentValues ((exampleMenu True)\<lparr>editing := True\<rparr>) = currentValues (exampleMenu True)"
proof -
  have a: "settingsUp counting (exampleEdit True 1 True)
     = Inr (True, (exampleEdit True 2 True)
          \<lparr>app := 1, calls := [(0, (exampleIF True)\<lparr>newValue := 2, can := True\<rparr>)]\<rparr>)"
    by (simp add: example_defs exampleEdit_def code_defs)
  have b: "settingsUp counting (exampleMenu True) = Inr (True, (exampleMenu True)\<lparr>currentSetting := 2\<rparr>)"
    by (simp add: example_defs code_defs scrollSetting_def findSetting.simps selectSetting_def
        TFT_LINES_def TFT_HEIGHT_def CHAR_HEIGHT_def)
  have e: "\<not> editing (exampleMenu True)" by (simp add: example_defs)
  have c: "settingsOK counting (exampleMenu True)
     = Inr (True, (exampleMenu True)\<lparr>editing := True\<rparr>)"
    by (simp add: example_defs code_defs)
  from currentValue_written_only_by_commit[THEN conjunct1, rule_format, OF a]
    currentValue_written_only_by_commit[THEN conjunct1, rule_format, OF b]
    currentValue_written_only_by_commit[THEN conjunct2, THEN conjunct2, THEN conjunct2,
      THEN conjunct2, THEN conjunct2, THEN conjunct2, rule_format, OF e c] a b c e
  show ?thesis by blast
qed

subsection \<open>Moving the cursor there and back\<close>

lemma named_not_blank: "named s i \<Longrightarrow> \<not> blank s i"
  by (auto simp: named_def blank_def split: sum.splits)

lemma named_nonneg: "named s i \<Longrightarrow> 0 \<le> i"
  by (auto simp: named_def settingAt_def split: sum.splits option.splits if_splits)

lemma gap_step: "blank s (p + 1) \<Longrightarrow> gap s (p + 1) q \<Longrightarrow> gap s p q"
  unfolding gap_def
proof (intro conjI allI impI)
  assume b: "blank s (p + 1)" and g: "p + 1 < q \<and> (\<forall>j. p + 1 < j \<and> j < q \<longrightarrow> blank s j)"
  show "p < q" using g by simp
  fix j assume j: "p < j \<and> j < q"
  show "blank s j"
  proof (cases "j = p + 1")
    case True with b show ?thesis by simp
  next
    case False with j g show ?thesis by simp
  qed
qed

lemma gap_step_down: "blank s (q - 1) \<Longrightarrow> gap s p (q - 1) \<Longrightarrow> gap s p q"
  unfolding gap_def
proof (intro conjI allI impI)
  assume b: "blank s (q - 1)" and g: "p < q - 1 \<and> (\<forall>j. p < j \<and> j < q - 1 \<longrightarrow> blank s j)"
  show "p < q" using g by simp
  fix j assume j: "p < j \<and> j < q"
  show "blank s j"
  proof (cases "j = q - 1")
    case True with b show ?thesis by simp
  next
    case False with j g show ?thesis by simp
  qed
qed

lemma gap_one: "gap s p (p + 1)"
  by (auto simp: gap_def)

lemma findSetting_up:
  "d = 1 \<Longrightarrow> findSetting d s p = Inr (Some q) \<Longrightarrow> gap s p q \<and> named s q \<and> q < nSettings s"
proof (induction d s p rule: findSetting.induct)
  case (1 d s p)
  note e = "1.prems"(2)[unfolded findSetting.simps[of d s p]]
  from "1.prems"(1) e have lt: "p < nSettings s - 1"
    by (auto split: if_splits)
  with "1.prems"(1) e obtain x where x: "settingAt s (p + d) = Inr x"
    and r: "(if name x = None then findSetting d s (p + d) else Inr (Some (p + d))) = Inr (Some q)"
    by (auto simp: seq_Inr_iff)
  show ?case
  proof (cases "name x = None")
    case True
    with r have f: "findSetting d s (p + d) = Inr (Some q)" by simp
    have c: "0 < d \<and> p < nSettings s - 1" using lt "1.prems"(1) by simp
    have "gap s (p + d) q \<and> named s q \<and> q < nSettings s"
      by (rule "1.IH"(1)[OF c True "1.prems"(1) f])
    moreover have "blank s (p + 1)" using x True "1.prems"(1) by (simp add: blank_def)
    ultimately show ?thesis using gap_step "1.prems"(1) by auto
  next
    case False
    with r "1.prems"(1) have "q = p + 1" by simp
    with x False lt "1.prems"(1) show ?thesis by (simp add: gap_one named_def)
  qed
qed

lemma findSetting_down:
  "d = - 1 \<Longrightarrow> findSetting d s q = Inr (Some p) \<Longrightarrow> gap s p q \<and> named s p"
proof (induction d s q rule: findSetting.induct)
  case (1 d s q)
  note e = "1.prems"(2)[unfolded findSetting.simps[of d s q]]
  from "1.prems"(1) e have lt: "0 < q"
    by (auto split: if_splits)
  with "1.prems"(1) e obtain x where x: "settingAt s (q + d) = Inr x"
    and r: "(if name x = None then findSetting d s (q + d) else Inr (Some (q + d))) = Inr (Some p)"
    by (auto simp: seq_Inr_iff)
  show ?case
  proof (cases "name x = None")
    case True
    with r have f: "findSetting d s (q + d) = Inr (Some p)" by simp
    have c1: "\<not> (0 < d \<and> q < nSettings s - 1)" using "1.prems"(1) by simp
    have c2: "d < 0 \<and> 0 < q" using lt "1.prems"(1) by simp
    have "gap s p (q + d) \<and> named s p"
      by (rule "1.IH"(2)[OF c1 c2 True "1.prems"(1) f])
    moreover have "blank s (q - 1)" using x True "1.prems"(1) by (simp add: blank_def)
    ultimately show ?thesis using gap_step_down[of s q p] "1.prems"(1) by auto
  next
    case False
    with r "1.prems"(1) have "p = q - 1" by simp
    with x False lt "1.prems"(1) gap_one[of s "q - 1"] show ?thesis by (simp add: named_def)
  qed
qed

lemma gap_upper_unique:
  assumes "gap s p q" "named s q" "gap s p q'" "named s q'"
  shows "q = q'"
proof (rule ccontr)
  assume "q \<noteq> q'"
  then consider "q < q'" | "q' < q" by linarith
  then show False
  proof cases
    case 1
    with assms(1,3) have "blank s q" by (simp add: gap_def)
    with assms(2) show False by (simp add: named_not_blank)
  next
    case 2
    with assms(1,3) have "blank s q'" by (simp add: gap_def)
    with assms(4) show False by (simp add: named_not_blank)
  qed
qed

lemma gap_lower_unique:
  assumes "gap s p q" "named s p \<or> p = 0" "gap s p' q" "named s p'"
  shows "p' = p"
proof (rule ccontr)
  assume "p' \<noteq> p"
  then consider "p < p'" | "p' < p" by linarith
  then show False
  proof cases
    case 1
    with assms(1,3) have "blank s p'" by (simp add: gap_def)
    with assms(4) show False by (simp add: named_not_blank)
  next
    case 2
    from assms(2) show False
    proof
      assume n: "named s p"
      from 2 assms(1,3) have "blank s p" by (simp add: gap_def)
      with n show False by (simp add: named_not_blank)
    next
      assume "p = 0"
      with 2 named_nonneg[OF assms(4)] show False by simp
    qed
  qed
qed


text \<open>
  The search of \<^verbatim>\<open>scrollSetting\<close> ends in its \<^verbatim>\<open>return false\<close> exactly when every slot
  in its direction is an empty line.
\<close>

lemma findSetting_none_up:
  "d = 1 \<Longrightarrow>
     (findSetting d s p = Inr None) = (\<forall>q. p < q \<and> q < nSettings s \<longrightarrow> blank s q)"
proof (induction d s p rule: findSetting.induct)
  case (1 d s p)
  note d = "1.prems"
  note u = findSetting.simps[of d s p]
  show ?case
  proof (cases "p < nSettings s - 1")
    case False
    then have "findSetting d s p = Inr None" unfolding u using d by simp
    moreover have "\<forall>q. p < q \<and> q < nSettings s \<longrightarrow> blank s q" using False by auto
    ultimately show ?thesis by simp
  next
    case lt: True
    show ?thesis
    proof (cases "settingAt s (p + d)")
      case (Inl e)
      then have "findSetting d s p = Inl e" unfolding u using d lt by simp
      moreover have "\<not> blank s (p + 1)" using Inl d by (simp add: blank_def)
      then have "\<exists>q. p < q \<and> q < nSettings s \<and> \<not> blank s q"
        using lt by (intro exI[of _ "p + 1"]) simp
      ultimately show ?thesis by auto
    next
      case (Inr x)
      show ?thesis
      proof (cases "name x = None")
        case True
        have c: "0 < d \<and> p < nSettings s - 1" using d lt by simp
        have f: "findSetting d s p = findSetting d s (p + d)"
          unfolding u using d lt Inr True by simp
        have b: "blank s (p + 1)" using Inr True d by (simp add: blank_def)
        have ih: "(findSetting d s (p + d) = Inr None)
                  = (\<forall>q. p + d < q \<and> q < nSettings s \<longrightarrow> blank s q)"
          by (rule "1.IH"(1)[OF c True d])
        have "(\<forall>q. p < q \<and> q < nSettings s \<longrightarrow> blank s q)
              = (\<forall>q. p + 1 < q \<and> q < nSettings s \<longrightarrow> blank s q)"
        proof
          assume "\<forall>q. p < q \<and> q < nSettings s \<longrightarrow> blank s q"
          then show "\<forall>q. p + 1 < q \<and> q < nSettings s \<longrightarrow> blank s q" by simp
        next
          assume a: "\<forall>q. p + 1 < q \<and> q < nSettings s \<longrightarrow> blank s q"
          show "\<forall>q. p < q \<and> q < nSettings s \<longrightarrow> blank s q"
          proof (intro allI impI)
            fix q assume q: "p < q \<and> q < nSettings s"
            show "blank s q"
            proof (cases "q = p + 1")
              case True with b show ?thesis by simp
            next
              case False with q a show ?thesis by simp
            qed
          qed
        qed
        with f ih d show ?thesis by simp
      next
        case False
        then have "findSetting d s p = Inr (Some (p + d))"
          unfolding u using d lt Inr by auto
        moreover have "\<not> blank s (p + 1)" using Inr False d by (simp add: blank_def)
        then have "\<exists>q. p < q \<and> q < nSettings s \<and> \<not> blank s q"
          using lt by (intro exI[of _ "p + 1"]) simp
        ultimately show ?thesis by auto
      qed
    qed
  qed
qed

lemma findSetting_none_down:
  "d = - 1 \<Longrightarrow>
     (findSetting d s p = Inr None) = (\<forall>q. 0 \<le> q \<and> q < p \<longrightarrow> blank s q)"
proof (induction d s p rule: findSetting.induct)
  case (1 d s p)
  note d = "1.prems"
  note u = findSetting.simps[of d s p]
  show ?case
  proof (cases "0 < p")
    case False
    then have "findSetting d s p = Inr None" unfolding u using d by simp
    moreover have "\<forall>q. 0 \<le> q \<and> q < p \<longrightarrow> blank s q" using False by auto
    ultimately show ?thesis by simp
  next
    case lt: True
    show ?thesis
    proof (cases "settingAt s (p + d)")
      case (Inl e)
      then have "findSetting d s p = Inl e" unfolding u using d lt by simp
      moreover have "\<not> blank s (p - 1)" using Inl d by (simp add: blank_def)
      then have "\<exists>q. 0 \<le> q \<and> q < p \<and> \<not> blank s q"
        using lt by (intro exI[of _ "p - 1"]) simp
      ultimately show ?thesis by auto
    next
      case (Inr x)
      show ?thesis
      proof (cases "name x = None")
        case True
        have c1: "\<not> (0 < d \<and> p < nSettings s - 1)" using d by simp
        have c2: "d < 0 \<and> 0 < p" using d lt by simp
        have f: "findSetting d s p = findSetting d s (p + d)"
          unfolding u using d lt Inr True by simp
        have b: "blank s (p - 1)" using Inr True d by (simp add: blank_def)
        have ih: "(findSetting d s (p + d) = Inr None)
                  = (\<forall>q. 0 \<le> q \<and> q < p + d \<longrightarrow> blank s q)"
          by (rule "1.IH"(2)[OF c1 c2 True d])
        have "(\<forall>q. 0 \<le> q \<and> q < p \<longrightarrow> blank s q)
              = (\<forall>q. 0 \<le> q \<and> q < p - 1 \<longrightarrow> blank s q)"
        proof
          assume "\<forall>q. 0 \<le> q \<and> q < p \<longrightarrow> blank s q"
          then show "\<forall>q. 0 \<le> q \<and> q < p - 1 \<longrightarrow> blank s q" by simp
        next
          assume a: "\<forall>q. 0 \<le> q \<and> q < p - 1 \<longrightarrow> blank s q"
          show "\<forall>q. 0 \<le> q \<and> q < p \<longrightarrow> blank s q"
          proof (intro allI impI)
            fix q assume q: "0 \<le> q \<and> q < p"
            show "blank s q"
            proof (cases "q = p - 1")
              case True with b show ?thesis by simp
            next
              case False with q a show ?thesis by simp
            qed
          qed
        qed
        with f ih d show ?thesis by simp
      next
        case False
        then have "findSetting d s p = Inr (Some (p + d))"
          unfolding u using d lt Inr by auto
        moreover have "\<not> blank s (p - 1)" using Inr False d by (simp add: blank_def)
        then have "\<exists>q. 0 \<le> q \<and> q < p \<and> \<not> blank s q"
          using lt by (intro exI[of _ "p - 1"]) simp
        ultimately show ?thesis by auto
      qed
    qed
  qed
qed

lemma clamped_up:
  "clamped 1 s \<longleftrightarrow> \<not> editing s \<and> findSetting 1 s (currentSetting s) = Inr None"
proof -
  have "list_all (blank s) [currentSetting s + 1 .. nSettings s - 1]
        = (\<forall>q. currentSetting s < q \<and> q < nSettings s \<longrightarrow> blank s q)"
    by (auto simp: list_all_iff)
  then show ?thesis
    by (simp add: clamped_def findSetting_none_up[OF refl])
qed

lemma clamped_down:
  "clamped (- 1) s \<longleftrightarrow> \<not> editing s \<and> findSetting (- 1) s (currentSetting s) = Inr None"
proof -
  have "list_all (blank s) [0 .. currentSetting s - 1]
        = (\<forall>q. 0 \<le> q \<and> q < currentSetting s \<longrightarrow> blank s q)"
    by (auto simp: list_all_iff)
  then show ?thesis
    by (simp add: clamped_def findSetting_none_down[OF refl])
qed

lemma clamped_search:
  assumes "d = 1 \<or> d = - 1"
  shows "clamped d s \<longleftrightarrow> \<not> editing s \<and> findSetting d s (currentSetting s) = Inr None"
  using assms clamped_up[of s] clamped_down[of s] by auto

lemma printAt_off: "\<not> canUseDisplay s \<Longrightarrow> printAt x y txt clean fg bg l s = Inr (True, s)"
  by (simp add: printAt_def)

lemma selectSetting_off: "\<not> canUseDisplay s \<Longrightarrow> selectSetting on s = Inr (True, s)"
  by (simp add: selectSetting_def printAt_off)

lemma displaySettings_off: "\<not> canUseDisplay s \<Longrightarrow> displaySettings first s = Inr (False, s)"
  by (simp add: displaySettings_def)

lemma printAt_top:
  "printAt x y txt clean fg bg l s = Inr (r, s') \<Longrightarrow> topSetting s' = topSetting s"
  by (auto simp: printAt_def Let_def seq_Inr_iff split: if_splits option.splits)

lemma selectSetting_top:
  "selectSetting on s = Inr (r, s') \<Longrightarrow> topSetting s' = topSetting s"
  by (auto simp: selectSetting_def Let_def dest: printAt_top)

lemma displayName_true:
  "displayName i row clean fg bg s = Inr (r, s') \<Longrightarrow> settings s \<noteq> None \<Longrightarrow> r"
  by (auto simp: displayName_def seq_Inr_iff dest: printAt_draws)

lemma displaySetting_true:
  assumes "displaySetting i row clean fg bg s = Inr (r, s')" and sn: "settings s \<noteq> None"
  shows "r"
proof -
  from assms obtain x where x: "settingAt s i = Inr x"
    by (auto simp: displaySetting_def seq_Inr_iff)
  show ?thesis
  proof (cases "name x = None")
    case True
    with assms x show ?thesis by (auto simp: displaySetting_def seq_Inr_iff)
  next
    case False
    with assms x obtain r1 s1 where
      a: "displayName i row clean fg bg s = Inr (r1, s1)"
      and b: "(if r1 then displayValue i row clean fg bg s1 else Inr (False, s1)) = Inr (r, s')"
      by (auto simp: displaySetting_def seq_Inr_iff)
    have r1: "r1" by (rule displayName_true[OF a sn])
    have "settings s1 \<noteq> None" using draws_fields(1)[OF displayName_draws[OF a]] sn by simp
    with b r1 show ?thesis by (auto dest: displayValue_true)
  qed
qed

lemma findSetting_some:
  assumes "findSetting d s p = Inr (Some q)"
  shows "settings s \<noteq> None"
proof -
  note e = assms[unfolded findSetting.simps[of d s p]]
  then obtain k x where "settingAt s k = Inr x"
    by (auto simp: seq_Inr_iff split: if_splits)
  then show ?thesis by (rule settingAt_some)
qed

lemma displayRows_true:
  "displayRows first n i result s = Inr (r, s') \<Longrightarrow> settings s \<noteq> None \<Longrightarrow> result \<Longrightarrow> r"
proof (induction first n i result s rule: displayRows.induct)
  case (1 first n i result s)
  note e = "1.prems"(1)[unfolded displayRows.simps[of first n i result s]]
  show ?case
  proof (cases "i < n \<and> result")
    case True
    with e obtain r1 s1 where
      a: "displaySetting (first + i) i False WHITE BLACK s = Inr (r1, s1)"
      and b: "displayRows first n (i + 1) r1 s1 = Inr (r, s')"
      by (auto simp: seq_Inr_iff)
    have r1: "r1" by (rule displaySetting_true[OF a "1.prems"(2)])
    have "settings s1 \<noteq> None"
      using draws_fields(1)[OF displaySetting_draws[OF a]] "1.prems"(2) by simp
    from "1.IH"[OF True b this r1] show ?thesis .
  next
    case False
    with e "1.prems"(3) show ?thesis by auto
  qed
qed

lemma displaySettings_result:
  assumes "displaySettings first s = Inr (r, s')" and "settings s \<noteq> None"
  shows "r = canUseDisplay s"
proof (cases "canUseDisplay s")
  case False
  with assms(1) show ?thesis by (simp add: displaySettings_off)
next
  case True
  with assms(1) obtain n s2 where
    "displayRows first n 0 True (s\<lparr>myTFT := myTFT s @ [FillScreen ST7735_BLACK]\<rparr>) = Inr (r, s2)"
    by (auto simp: displaySettings_def Let_def seq_Inr_iff)
  from displayRows_true[OF this] assms(2) True show ?thesis by simp
qed

lemma displaySettings_top:
  "displaySettings first s = Inr (r, s') \<Longrightarrow> canUseDisplay s \<Longrightarrow> topSetting s' = first"
  by (auto simp: displaySettings_def Let_def seq_Inr_iff)

lemma scrollSetting_clamped:
  "findSetting d s (currentSetting s) = Inr None \<Longrightarrow> scrollSetting d s = Inr (False, s)"
  by (simp add: scrollSetting_def)

lemma scrollSetting_moved:
  assumes "scrollSetting d s = Inr (r, s')"
    and f: "findSetting d s (currentSetting s) = Inr (Some q)"
    and ne: "q \<noteq> currentSetting s"
  shows "currentSetting s' = q"
    and "r = (if q < topSetting s \<or> topSetting s + TFT_LINES \<le> q then canUseDisplay s else True)"
    and "\<not> canUseDisplay s \<Longrightarrow> s' = s\<lparr>currentSetting := q\<rparr>"
proof -
  from assms obtain r1 s1 r3 s3 r4 where
    a: "selectSetting False s = Inr (r1, s1)"
    and b: "(if q < topSetting s1 then displaySettings q (s1\<lparr>currentSetting := q\<rparr>)
             else if q \<ge> topSetting s1 + TFT_LINES
             then displaySettings (q - TFT_LINES + 1) (s1\<lparr>currentSetting := q\<rparr>)
             else Inr (True, s1\<lparr>currentSetting := q\<rparr>)) = Inr (r3, s3)"
    and c: "selectSetting True s3 = Inr (r4, s')"
    and r: "r = r3"
    by (auto simp: scrollSetting_def seq_Inr_iff Let_def cong: if_cong)
  have d1: "draws s s1" using selectSetting_draws[OF a] by simp
  have t1: "topSetting s1 = topSetting s" by (rule selectSetting_top[OF a])
  have d2: "draws (s1\<lparr>currentSetting := q\<rparr>) s3"
    using b by (auto dest!: displaySettings_draws split: if_splits)
  have d3: "draws s3 s'" using selectSetting_draws[OF c] by simp
  have d: "draws (s\<lparr>currentSetting := q\<rparr>) s'"
    using draws_cur[OF d1, of q] d2 d3 by (blast intro: draws_trans)
  from draws_fields(3)[OF d] show "currentSetting s' = q" by simp
  have sn: "settings s \<noteq> None"
    by (rule findSetting_some[OF f])
  have sn1: "settings (s1\<lparr>currentSetting := q\<rparr>) \<noteq> None"
    using sn draws_fields(1)[OF d1] by simp
  have c1: "canUseDisplay (s1\<lparr>currentSetting := q\<rparr>) = canUseDisplay s"
    using draws_fields(8)[OF d1] by simp
  show "r = (if q < topSetting s \<or> topSetting s + TFT_LINES \<le> q then canUseDisplay s else True)"
    using b r t1 c1 by (auto dest!: displaySettings_result[OF _ sn1] split: if_splits)
  assume off: "\<not> canUseDisplay s"
  then have "s1 = s" using a by (simp add: selectSetting_off)
  with off b have "s3 = s\<lparr>currentSetting := q\<rparr>"
    by (auto simp: displaySettings_off split: if_splits)
  with off c show "s' = s\<lparr>currentSetting := q\<rparr>"
    by (simp add: selectSetting_off)
qed


lemma seq_assoc: "seq (seq m f) g = seq m (\<lambda>x. seq (f x) g)"
  by (cases m) simp_all

lemma run_append: "run cb (es @ fs) s = seq (run cb es s) (run cb fs)"
proof (induction es arbitrary: s)
  case Nil
  show ?case by simp
next
  case (Cons e es)
  show ?case by (cases "handle cb e s") (simp_all add: Cons.IH)
qed

lemma unclamped_append:
  "unclamped cb (es @ fs) s =
     (unclamped cb es s \<and> (case run cb es s of Inl f \<Rightarrow> True | Inr s' \<Rightarrow> unclamped cb fs s'))"
proof (induction es arbitrary: s)
  case Nil
  show ?case by simp
next
  case (Cons e es)
  show ?case by (cases "handle cb e s") (auto simp: Cons.IH)
qed

lemma sameMenu_refl [simp]: "sameMenu s s"
  by (simp add: sameMenu_def)

lemma sameMenu_trans: "sameMenu s s1 \<Longrightarrow> sameMenu s1 s2 \<Longrightarrow> sameMenu s s2"
  by (simp add: sameMenu_def)

lemma sameMenu_settingAt: "sameMenu s s' \<Longrightarrow> settingAt s' i = settingAt s i"
  by (simp add: sameMenu_def settingAt_def)

lemma sameMenu_named: "sameMenu s s' \<Longrightarrow> named s' i = named s i"
  by (simp add: named_def sameMenu_settingAt)

lemma sameMenu_gap: "sameMenu s s' \<Longrightarrow> gap s' p q = gap s p q"
  by (simp add: gap_def blank_def sameMenu_settingAt)

lemma scrollSetting_sameMenu: "scrollSetting d s = Inr (r, s') \<Longrightarrow> sameMenu s s'"
  using draws_fields[OF scrollSetting_draws, of d s r s']
  by (simp add: sameMenu_def)

lemma up_step:
  assumes "\<not> editing s" and "handle cb Up s = Inr s'" and "\<not> clamped 1 s"
  shows "gap s (currentSetting s) (currentSetting s') \<and> named s (currentSetting s')
       \<and> sameMenu s s'"
proof -
  from assms(1,2) obtain r where u: "scrollSetting 1 s = Inr (r, s')"
    by (auto simp: seq_Inr_iff settingsUp_def)
  then obtain found where f: "findSetting 1 s (currentSetting s) = Inr found"
    by (auto simp: scrollSetting_def seq_Inr_iff)
  with assms(1,3) obtain q where q: "found = Some q"
    by (cases found) (auto simp: clamped_up)
  note g = findSetting_up[OF refl f[unfolded q]]
  then have "q \<noteq> currentSetting s" by (auto simp: gap_def)
  from scrollSetting_moved(1)[OF u f[unfolded q] this] have "currentSetting s' = q" .
  with g scrollSetting_sameMenu[OF u] show ?thesis by simp
qed

lemma down_step:
  assumes "\<not> editing s" and "handle cb Down s = Inr s'" and "\<not> clamped (- 1) s"
  shows "gap s (currentSetting s') (currentSetting s) \<and> named s (currentSetting s')
       \<and> sameMenu s s'"
proof -
  from assms(1,2) obtain r where u: "scrollSetting (- 1) s = Inr (r, s')"
    by (auto simp: seq_Inr_iff settingsDown_def)
  then obtain found where f: "findSetting (- 1) s (currentSetting s) = Inr found"
    by (auto simp: scrollSetting_def seq_Inr_iff)
  with assms(1,3) obtain q where q: "found = Some q"
    by (cases found) (auto simp: clamped_down)
  note g = findSetting_down[OF refl f[unfolded q]]
  then have "q \<noteq> currentSetting s" by (auto simp: gap_def)
  from scrollSetting_moved(1)[OF u f[unfolded q] this] have "currentSetting s' = q" .
  with g scrollSetting_sameMenu[OF u] show ?thesis by simp
qed

lemma ups_then_downs:
  assumes "\<not> editing s"
    and "named s (currentSetting s) \<or> currentSetting s = 0"
    and "run cb (replicate k Up @ replicate k Down) s = Inr s'"
    and "unclamped cb (replicate k Up @ replicate k Down) s"
  shows "currentSetting s' = currentSetting s \<and> sameMenu s s'"
  using assms
proof (induction k arbitrary: s s')
  case 0
  then show ?case by simp
next
  case (Suc k)
  let ?mid = "replicate k Up @ replicate k Down"
  have l: "replicate (Suc k) Up @ replicate (Suc k) Down = Up # (?mid @ [Down])"
    by (simp add: replicate_append_same)
  from Suc.prems(3) obtain s1 s2 where
    h1: "handle cb Up s = Inr s1" and h2: "run cb ?mid s1 = Inr s2"
    and h3: "handle cb Down s2 = Inr s'"
    unfolding l by (auto simp: seq_Inr_iff run_append)
  from Suc.prems(4) have u1: "unclamped cb (Up # (?mid @ [Down])) s" unfolding l .
  from u1 have c1: "\<not> clamped 1 s" by simp
  from u1 h1 have u2: "unclamped cb (?mid @ [Down]) s1" by simp
  have u3: "unclamped cb ?mid s1 \<and> unclamped cb [Down] s2"
    using u2 h2 unfolding unclamped_append[of cb ?mid "[Down]" s1] by simp
  then have c2: "unclamped cb ?mid s1" and c3: "\<not> clamped (- 1) s2" by simp_all
  note a = up_step[OF Suc.prems(1) h1 c1]
  from a Suc.prems(1) have e1: "\<not> editing s1" by (simp add: sameMenu_def)
  from a have m1: "sameMenu s s1" by simp
  from a have n1: "named s1 (currentSetting s1)" by (simp add: sameMenu_named[OF m1])
  from Suc.IH[OF e1 disjI1[OF n1] h2 c2] have
    b: "currentSetting s2 = currentSetting s1" "sameMenu s1 s2" by simp_all
  from b e1 have e2: "\<not> editing s2" by (simp add: sameMenu_def)
  note c = down_step[OF e2 h3 c3]
  have m2: "sameMenu s s2" using a b(2) by (blast intro: sameMenu_trans)
  have g1: "gap s (currentSetting s) (currentSetting s1)" using a by simp
  have g2: "gap s (currentSetting s') (currentSetting s1)"
    using c b(1) by (simp add: sameMenu_gap[OF m2])
  have n2: "named s (currentSetting s')" using c by (simp add: sameMenu_named[OF m2])
  have "currentSetting s' = currentSetting s"
    by (rule gap_lower_unique[OF g1 Suc.prems(2) g2 n2])
  moreover have "sameMenu s s'" using m2 c by (blast intro: sameMenu_trans)
  ultimately show ?case by simp
qed

lemma downs_then_ups:
  assumes "\<not> editing s"
    and "named s (currentSetting s) \<or> currentSetting s = 0"
    and "run cb (replicate k Down @ replicate k Up) s = Inr s'"
    and "unclamped cb (replicate k Down @ replicate k Up) s"
  shows "currentSetting s' = currentSetting s \<and> sameMenu s s'"
  using assms
proof (induction k arbitrary: s s')
  case 0
  then show ?case by simp
next
  case (Suc k)
  let ?mid = "replicate k Down @ replicate k Up"
  have l: "replicate (Suc k) Down @ replicate (Suc k) Up = Down # (?mid @ [Up])"
    by (simp add: replicate_append_same)
  from Suc.prems(3) obtain s1 s2 where
    h1: "handle cb Down s = Inr s1" and h2: "run cb ?mid s1 = Inr s2"
    and h3: "handle cb Up s2 = Inr s'"
    unfolding l by (auto simp: seq_Inr_iff run_append)
  from Suc.prems(4) have u1: "unclamped cb (Down # (?mid @ [Up])) s" unfolding l .
  from u1 have c1: "\<not> clamped (- 1) s" by simp
  from u1 h1 have u2: "unclamped cb (?mid @ [Up]) s1" by simp
  have u3: "unclamped cb ?mid s1 \<and> unclamped cb [Up] s2"
    using u2 h2 unfolding unclamped_append[of cb ?mid "[Up]" s1] by simp
  then have c2: "unclamped cb ?mid s1" and c3: "\<not> clamped 1 s2" by simp_all
  note a = down_step[OF Suc.prems(1) h1 c1]
  from a Suc.prems(1) have e1: "\<not> editing s1" by (simp add: sameMenu_def)
  from a have m1: "sameMenu s s1" by simp
  from a have n1: "named s1 (currentSetting s1)" by (simp add: sameMenu_named[OF m1])
  from a have "0 \<le> currentSetting s1" "currentSetting s1 < currentSetting s"
    by (auto simp: gap_def dest: named_nonneg)
  with Suc.prems(2) have n0: "named s (currentSetting s)" by auto
  from Suc.IH[OF e1 disjI1[OF n1] h2 c2] have
    b: "currentSetting s2 = currentSetting s1" "sameMenu s1 s2" by simp_all
  from b e1 have e2: "\<not> editing s2" by (simp add: sameMenu_def)
  note c = up_step[OF e2 h3 c3]
  have m2: "sameMenu s s2" using a b(2) by (blast intro: sameMenu_trans)
  have g1: "gap s (currentSetting s1) (currentSetting s)" using a by simp
  have g2: "gap s (currentSetting s1) (currentSetting s')"
    using c b(1) by (simp add: sameMenu_gap[OF m2])
  have n2: "named s (currentSetting s')" using c by (simp add: sameMenu_named[OF m2])
  have "currentSetting s = currentSetting s'"
    by (rule gap_upper_unique[OF g1 n0 g2 n2])
  moreover have "sameMenu s s'" using m2 c by (blast intro: sameMenu_trans)
  ultimately show ?case by simp
qed

text \<open>
  C7. Take a browsing state whose cursor is on a setting with a name, or on index \<open>0\<close>
  (where the cursor starts, whatever that slot holds). If \<open>k\<close> times \<^verbatim>\<open>settingsUp\<close>
  followed by \<open>k\<close> times \<^verbatim>\<open>settingsDown\<close> run without any step being clamped (at every
  \<^verbatim>\<open>settingsUp\<close> some slot above the cursor is not an empty line, at every
  \<^verbatim>\<open>settingsDown\<close> some slot below it), the state reached has the \<^verbatim>\<open>currentSetting\<close> of
  the start; and the same for \<open>k\<close> times \<^verbatim>\<open>settingsDown\<close> followed by \<open>k\<close> times
  \<^verbatim>\<open>settingsUp\<close>. In the instance below the move from slot \<open>1\<close> crosses two empty lines
  to slot \<open>4\<close> and comes back.
\<close>

theorem up_down_round_trip:
  assumes "\<not> editing s"
    and "named s (currentSetting s) \<or> currentSetting s = 0"
  shows "(unclamped cb (replicate k Up @ replicate k Down) s \<longrightarrow>
          run cb (replicate k Up @ replicate k Down) s = Inr s' \<longrightarrow>
          currentSetting s' = currentSetting s)
       \<and> (unclamped cb (replicate k Down @ replicate k Up) s \<longrightarrow>
          run cb (replicate k Down @ replicate k Up) s = Inr s'' \<longrightarrow>
          currentSetting s'' = currentSetting s)"
  using ups_then_downs[OF assms, of cb k s'] downs_then_ups[OF assms, of cb k s'']
  by blast

theorem up_down_round_trip_witness:
  "unclamped counting [Up, Down] exampleGaps
   \<and> handle counting Up exampleGaps = Inr (exampleGaps\<lparr>currentSetting := 4\<rparr>)
   \<and> run counting [Up, Down] exampleGaps = Inr exampleGaps
   \<and> currentSetting exampleGaps = currentSetting exampleGaps
   \<and> unclamped counting [Down, Up] ((exampleMenu True)\<lparr>currentSetting := 2\<rparr>)
   \<and> run counting [Down, Up] ((exampleMenu True)\<lparr>currentSetting := 2\<rparr>)
        = Inr ((exampleMenu True)\<lparr>currentSetting := 2\<rparr>)
   \<and> currentSetting ((exampleMenu True)\<lparr>currentSetting := 2\<rparr>)
        = currentSetting ((exampleMenu True)\<lparr>currentSetting := 2\<rparr>)"
proof -
  let ?s = "exampleGaps"
  let ?t = "(exampleMenu True)\<lparr>currentSetting := 2\<rparr>"
  have e: "\<not> editing ?s" "\<not> editing ?t" by (simp_all add: example_defs)
  have n: "named ?s (currentSetting ?s) \<or> currentSetting ?s = 0"
    "named ?t (currentSetting ?t) \<or> currentSetting ?t = 0"
    by (simp_all add: example_defs code_defs browse_defs)
  have h: "handle counting Up ?s = Inr (?s\<lparr>currentSetting := 4\<rparr>)"
    by (simp add: example_defs code_defs browse_defs)
  have u1: "unclamped counting (replicate (Suc 0) Up @ replicate (Suc 0) Down) ?s"
    by (simp add: example_defs code_defs browse_defs)
  have r1: "run counting (replicate (Suc 0) Up @ replicate (Suc 0) Down) ?s = Inr ?s"
    by (simp add: example_defs code_defs browse_defs)
  have u2: "unclamped counting (replicate (Suc 0) Down @ replicate (Suc 0) Up) ?t"
    by (simp add: example_defs code_defs browse_defs)
  have r2: "run counting (replicate (Suc 0) Down @ replicate (Suc 0) Up) ?t = Inr ?t"
    by (simp add: example_defs code_defs browse_defs)
  have c1: "currentSetting ?s = currentSetting ?s"
    by (rule up_down_round_trip[OF e(1) n(1), THEN conjunct1, rule_format, OF u1 r1])
  have c2: "currentSetting ?t = currentSetting ?t"
    by (rule up_down_round_trip[OF e(2) n(2), THEN conjunct2, rule_format, OF u2 r2])
  from u1 h r1 c1 u2 r2 c2 show ?thesis by simp
qed

subsection \<open>What the events return\<close>

lemma highlightValue_true:
  "highlightValue s = Inr (r, s') \<Longrightarrow> settings s \<noteq> None \<Longrightarrow> r"
  by (auto simp: highlightValue_def Let_def seq_Inr_iff dest: displayValue_true)

lemma scrollValue_result:
  assumes "scrollValue cb d s = Inr (r, s')"
  shows "r = (settings s \<noteq> None)"
proof (cases "settings s = None \<and> currentSetting s = 0")
  case True
  with assms show ?thesis by (auto simp: scrollValue_def)
next
  case False
  with assms obtain x where x: "settingAt s (currentSetting s) = Inr x"
    by (auto simp: scrollValue_def seq_Inr_iff)
  have sn: "settings s \<noteq> None" by (rule settingAt_some[OF x])
  show ?thesis
  proof (cases "(d > 0 \<and> newValue x < nValues x - 1) \<or> (d < 0 \<and> newValue x > 0)")
    case stay: False
    from assms scrollValue_stays[OF x stay, of cb] sn show ?thesis by simp
  next
    case mv: True
    then have kk: "(if d > 0 \<and> newValue x < nValues x - 1 then newValue x + d
               else if d < 0 \<and> newValue x > 0 then newValue x + d
               else newValue x) = newValue x + d" and d0: "d \<noteq> 0"
      by auto
    let ?x1 = "x\<lparr>newValue := newValue x + d\<rparr>"
    let ?s0 = "putSetting (currentSetting s) ?x1 s"
    from assms False x d0 obtain r1 s1 where
      h: "highlightValue ?s0 = Inr (r1, s1)"
      and rest: "(if liveUpdate x
                  then seq (invoke cb ?x1 s1) (\<lambda>(r, s2).
                      Inr (r1, putSetting (currentSetting s2) (?x1\<lparr>can := r\<rparr>) s2))
                  else Inr (r1, s1)) = Inr (r, s')"
      by (auto simp: scrollValue_def Let_def kk seq_Inr_iff)
    have "settings ?s0 \<noteq> None" using sn by (auto simp: putSetting_def)
    from highlightValue_true[OF h this] have "r1" .
    moreover from rest have "r = r1" by (auto simp: seq_Inr_iff split: if_splits)
    ultimately show ?thesis using sn by simp
  qed
qed

lemma scrollSetting_result:
  assumes "scrollSetting d s = Inr (r, s')" and "d = 1 \<or> d = - 1" and "\<not> editing s"
  shows "r = (\<not> clamped d s \<and>
              (currentSetting s' < topSetting s \<or> topSetting s + TFT_LINES \<le> currentSetting s'
                 \<longrightarrow> canUseDisplay s))"
proof -
  from assms(1) obtain found where f: "findSetting d s (currentSetting s) = Inr found"
    by (auto simp: scrollSetting_def seq_Inr_iff)
  show ?thesis
  proof (cases found)
    case None
    with f assms(1,3) show ?thesis
      by (simp add: scrollSetting_clamped clamped_search[OF assms(2)])
  next
    case (Some q)
    from assms(2) have "q \<noteq> currentSetting s"
    proof
      assume "d = 1"
      from findSetting_up[OF this f[unfolded Some]] show ?thesis by (auto simp: gap_def)
    next
      assume "d = - 1"
      from findSetting_down[OF this f[unfolded Some]] show ?thesis by (auto simp: gap_def)
    qed
    note m = scrollSetting_moved(1,2)[OF assms(1) f[unfolded Some] this]
    from m f Some show ?thesis by (auto simp: clamped_search[OF assms(2)])
  qed
qed

text \<open>
  C8, as the claim states it: each of the four events returns true exactly when all the
  drawing it did succeeded, whether or not the state changed, so that a browsing move
  clamped at a boundary returns true. It fails: with the display in use, \<^verbatim>\<open>settingsDown\<close>
  on the first setting and \<^verbatim>\<open>settingsUp\<close> on the last one draw nothing, change nothing
  and return false.
\<close>

theorem clamped_move_returns_false_counterexample:
  "settingsDown counting ((exampleMenu True)\<lparr>canUseDisplay := True\<rparr>)
     = Inr (False, (exampleMenu True)\<lparr>canUseDisplay := True\<rparr>)
   \<and> settingsUp counting ((exampleMenu True)\<lparr>canUseDisplay := True, currentSetting := 2\<rparr>)
     = Inr (False, (exampleMenu True)\<lparr>canUseDisplay := True, currentSetting := 2\<rparr>)"
  by (simp add: example_defs code_defs browse_defs)

text \<open>
  C8, amended. \<^verbatim>\<open>settingsOK\<close> and \<^verbatim>\<open>settingsStop\<close> return true. In editing mode
  \<^verbatim>\<open>settingsUp\<close> and \<^verbatim>\<open>settingsDown\<close> return true, and false only when the array of
  settings was never allocated. In browsing mode a clamped \<^verbatim>\<open>settingsUp\<close> or
  \<^verbatim>\<open>settingsDown\<close>, one with nothing but empty lines in its direction, returns false
  and leaves the state as it is; a move that is not clamped returns true exactly when
  the window needed no redraw (the new selection lies inside it) or the redraw
  succeeded, which it does exactly when the display is in use.
\<close>

theorem event_results:
  "(settingsOK cb s = Inr (r, s') \<longrightarrow> r)
 \<and> (settingsStop cb s = Inr (r, s') \<longrightarrow> r)
 \<and> (editing s \<longrightarrow> settingsUp cb s = Inr (r, s') \<longrightarrow> r = (settings s \<noteq> None))
 \<and> (editing s \<longrightarrow> settingsDown cb s = Inr (r, s') \<longrightarrow> r = (settings s \<noteq> None))
 \<and> (clamped 1 s \<longrightarrow> settingsUp cb s = Inr (False, s))
 \<and> (clamped (- 1) s \<longrightarrow> settingsDown cb s = Inr (False, s))
 \<and> (\<not> editing s \<longrightarrow> settingsUp cb s = Inr (r, s') \<longrightarrow>
       r = (\<not> clamped 1 s \<and>
            (currentSetting s' < topSetting s \<or> topSetting s + TFT_LINES \<le> currentSetting s'
               \<longrightarrow> canUseDisplay s)))
 \<and> (\<not> editing s \<longrightarrow> settingsDown cb s = Inr (r, s') \<longrightarrow>
       r = (\<not> clamped (- 1) s \<and>
            (currentSetting s' < topSetting s \<or> topSetting s + TFT_LINES \<le> currentSetting s'
               \<longrightarrow> canUseDisplay s)))"
proof (intro conjI impI)
  assume "settingsOK cb s = Inr (r, s')"
  from settingsOK_effect[OF this] show r by blast
next
  assume "settingsStop cb s = Inr (r, s')"
  from settingsStop_effect[OF this] show r by blast
next
  assume "editing s" "settingsUp cb s = Inr (r, s')"
  then have "scrollValue cb 1 s = Inr (r, s')" by (simp add: settingsUp_def)
  then show "r = (settings s \<noteq> None)" by (rule scrollValue_result)
next
  assume "editing s" "settingsDown cb s = Inr (r, s')"
  then have "scrollValue cb (- 1) s = Inr (r, s')" by (simp add: settingsDown_def)
  then show "r = (settings s \<noteq> None)" by (rule scrollValue_result)
next
  assume "clamped 1 s"
  then show "settingsUp cb s = Inr (False, s)"
    by (simp add: clamped_up settingsUp_def scrollSetting_clamped)
next
  assume "clamped (- 1) s"
  then show "settingsDown cb s = Inr (False, s)"
    by (simp add: clamped_down settingsDown_def scrollSetting_clamped)
next
  assume e: "\<not> editing s" and "settingsUp cb s = Inr (r, s')"
  then have "scrollSetting 1 s = Inr (r, s')" by (simp add: settingsUp_def)
  from scrollSetting_result[OF this _ e]
  show "r = (\<not> clamped 1 s \<and>
            (currentSetting s' < topSetting s \<or> topSetting s + TFT_LINES \<le> currentSetting s'
               \<longrightarrow> canUseDisplay s))" by simp
next
  assume e: "\<not> editing s" and "settingsDown cb s = Inr (r, s')"
  then have "scrollSetting (- 1) s = Inr (r, s')" by (simp add: settingsDown_def)
  from scrollSetting_result[OF this _ e]
  show "r = (\<not> clamped (- 1) s \<and>
            (currentSetting s' < topSetting s \<or> topSetting s + TFT_LINES \<le> currentSetting s'
               \<longrightarrow> canUseDisplay s))" by simp
qed

theorem event_results_witness:
  "clamped (- 1) (exampleMenu True)
   \<and> settingsDown counting (exampleMenu True) = Inr (False, exampleMenu True)
   \<and> \<not> clamped 1 (exampleMenu True)
   \<and> settingsUp counting (exampleMenu True) = Inr (True, (exampleMenu True)\<lparr>currentSetting := 2\<rparr>)
   \<and> \<not> clamped 1 exampleGaps
   \<and> settingsUp counting exampleGaps = Inr (True, exampleGaps\<lparr>currentSetting := 4\<rparr>)
   \<and> clamped 1 (exampleGaps\<lparr>nSettings := 4\<rparr>)
   \<and> settingsUp counting (exampleGaps\<lparr>nSettings := 4\<rparr>) = Inr (False, exampleGaps\<lparr>nSettings := 4\<rparr>)"
proof -
  let ?s = "exampleMenu True"
  let ?g = "exampleGaps"
  let ?h = "exampleGaps\<lparr>nSettings := 4\<rparr>"
  have c: "clamped (- 1) ?s" by (simp add: example_defs code_defs browse_defs)
  have d: "settingsDown counting ?s = Inr (False, ?s)"
    by (rule event_results[THEN conjunct2, THEN conjunct2, THEN conjunct2, THEN conjunct2,
          THEN conjunct2, THEN conjunct1, rule_format, OF c])
  have e: "\<not> editing ?s" by (simp add: example_defs)
  have u: "settingsUp counting ?s = Inr (True, ?s\<lparr>currentSetting := 2\<rparr>)"
    by (simp add: example_defs code_defs browse_defs)
  from event_results[THEN conjunct2, THEN conjunct2, THEN conjunct2, THEN conjunct2,
          THEN conjunct2, THEN conjunct2, THEN conjunct1, rule_format, OF e u]
  have nc: "\<not> clamped 1 ?s" by simp
  have eg: "\<not> editing ?g" by (simp add: example_defs)
  have ug: "settingsUp counting ?g = Inr (True, ?g\<lparr>currentSetting := 4\<rparr>)"
    by (simp add: example_defs code_defs browse_defs)
  from event_results[THEN conjunct2, THEN conjunct2, THEN conjunct2, THEN conjunct2,
          THEN conjunct2, THEN conjunct2, THEN conjunct1, rule_format, OF eg ug]
  have ng: "\<not> clamped 1 ?g" by simp
  have ch: "clamped 1 ?h" by (simp add: example_defs code_defs browse_defs)
  have uh: "settingsUp counting ?h = Inr (False, ?h)"
    by (rule event_results[THEN conjunct2, THEN conjunct2, THEN conjunct2, THEN conjunct2,
          THEN conjunct1, rule_format, OF ch])
  from c d u nc ng ug ch uh show ?thesis by simp
qed

subsection \<open>Events with and without the display\<close>

lemma logic_fields:
  assumes "logic s = logic t"
  shows "settings s = settings t" "nSettings s = nSettings t" "maxSettings s = maxSettings t"
    "currentSetting s = currentSetting t" "editing s = editing t" "app s = app t"
    "calls s = calls t"
  using assms by (simp_all add: logic_def)

lemma logic_settingAt:
  assumes "logic s = logic t"
  shows "settingAt s i = settingAt t i"
  by (simp add: settingAt_def logic_fields(1)[OF assms])

lemma draws_logic:
  assumes "draws s s'"
  shows "logic s' = logic s"
  by (simp add: logic_def draws_fields[OF assms])

lemma logic_put: "logic s = logic t \<Longrightarrow> logic (putSetting i x s) = logic (putSetting i x t)"
  by (simp add: logic_def putSetting_def)

lemma logic_cur: "logic s = logic t \<Longrightarrow>
    logic (s\<lparr>currentSetting := k\<rparr>) = logic (t\<lparr>currentSetting := k\<rparr>)"
  by (simp add: logic_def)

lemma logic_editing: "logic s = logic t \<Longrightarrow>
    logic (s\<lparr>editing := e\<rparr>) = logic (t\<lparr>editing := e\<rparr>)"
  by (simp add: logic_def)

lemma logic_invoke:
  assumes "logic s = logic t"
    and "invoke cb x s = Inr (r, s')" and "invoke cb x t = Inr (q, t')"
  shows "r = q \<and> logic s' = logic t'"
proof -
  from assms(2) obtain f where f: "fPtr x = Some f"
    by (cases "fPtr x") (simp_all add: invoke_def)
  note l = logic_fields[OF assms(1)]
  from assms(2) f have 1: "r = fst (cb f x (app s))"
    "s' = s\<lparr>app := snd (cb f x (app s)), calls := calls s @ [(f, x)]\<rparr>"
    by (simp_all add: invoke_def)
  from assms(3) f have 2: "q = fst (cb f x (app t))"
    "t' = t\<lparr>app := snd (cb f x (app t)), calls := calls t @ [(f, x)]\<rparr>"
    by (simp_all add: invoke_def)
  show ?thesis unfolding 1 2 by (simp add: logic_def l)
qed

lemma findSetting_cong:
  "settings t = settings s \<Longrightarrow> nSettings t = nSettings s \<Longrightarrow>
     findSetting d t k = findSetting d s k"
proof (induction d s k rule: findSetting.induct)
  case (1 d s k)
  have sa: "settingAt t (k + d) = settingAt s (k + d)"
    using "1.prems"(1) by (simp add: settingAt_def)
  note n = "1.prems"(2)
  have ih1: "0 < d \<and> k < nSettings s - 1 \<Longrightarrow> findSetting d t (k + d) = findSetting d s (k + d)"
    if "name x = None" for x :: Setting
    using "1.IH"(1)[OF _ that "1.prems"] by simp
  have ih2: "\<not> (0 < d \<and> k < nSettings s - 1) \<Longrightarrow> d < 0 \<and> 0 < k \<Longrightarrow>
      findSetting d t (k + d) = findSetting d s (k + d)"
    if "name x = None" for x :: Setting
    using "1.IH"(2)[OF _ _ that "1.prems"] by simp
  have body: "seq (settingAt s (k + d)) (\<lambda>x. if name x = None then findSetting d t (k + d)
                 else Inr (Some (k + d)))
            = seq (settingAt s (k + d)) (\<lambda>x. if name x = None then findSetting d s (k + d)
                 else Inr (Some (k + d)))"
    if "(0 < d \<and> k < nSettings s - 1) \<or> (d < 0 \<and> 0 < k)"
  proof (cases "settingAt s (k + d)")
    case (Inl e)
    then show ?thesis by simp
  next
    case (Inr x)
    show ?thesis
    proof (cases "name x = None")
      case True
      from that ih1[OF True] ih2[OF True] have "findSetting d t (k + d) = findSetting d s (k + d)"
        by blast
      with Inr show ?thesis by simp
    next
      case False
      with Inr show ?thesis by auto
    qed
  qed
  show ?case
  proof (cases "(0 < d \<and> k < nSettings s - 1) \<or> (d < 0 \<and> 0 < k)")
    case True
    have "findSetting d t k = seq (settingAt s (k + d)) (\<lambda>x. if name x = None
              then findSetting d t (k + d) else Inr (Some (k + d)))"
      apply (subst findSetting.simps[of d t k])
      using True by (auto simp: sa n)
    also have "\<dots> = seq (settingAt s (k + d)) (\<lambda>x. if name x = None
              then findSetting d s (k + d) else Inr (Some (k + d)))"
      by (rule body[OF True])
    also have "\<dots> = findSetting d s k"
      apply (subst findSetting.simps[of d s k])
      using True by auto
    finally show ?thesis .
  next
    case False
    show ?thesis
      apply (subst findSetting.simps[of d t k])
      apply (subst findSetting.simps[of d s k])
      using False by (auto simp: n)
  qed
qed


lemma scrollSetting_logic:
  assumes L: "logic s = logic t"
    and a: "scrollSetting d s = Inr (r, s')" and b: "scrollSetting d t = Inr (q, t')"
  shows "logic s' = logic t'"
proof -
  have c: "currentSetting t = currentSetting s" using logic_fields(4)[OF L] by simp
  have fc: "findSetting d t (currentSetting t) = findSetting d s (currentSetting s)"
    unfolding c using logic_fields(1,2)[OF L] by (intro findSetting_cong) simp_all
  from a obtain found where f: "findSetting d s (currentSetting s) = Inr found"
    by (auto simp: scrollSetting_def seq_Inr_iff)
  show ?thesis
  proof (cases found)
    case None
    with a b f fc L show ?thesis by (simp add: scrollSetting_clamped)
  next
    case (Some k)
    show ?thesis
    proof (cases "k = currentSetting s")
      case True
      with a b f fc c Some L show ?thesis by (simp add: scrollSetting_def)
    next
      case False
      have 1: "currentSetting s' = k"
        by (rule scrollSetting_moved(1)[OF a f[unfolded Some] False])
      have 2: "currentSetting t' = k"
        by (rule scrollSetting_moved(1)[OF b]) (use f fc Some False c in simp_all)
      have "logic s' = logic (s\<lparr>currentSetting := k\<rparr>)"
        using draws_logic[OF scrollSetting_draws[OF a]] 1 by simp
      moreover have "logic t' = logic (t\<lparr>currentSetting := k\<rparr>)"
        using draws_logic[OF scrollSetting_draws[OF b]] 2 by simp
      ultimately show ?thesis using logic_cur[OF L, of k] by simp
    qed
  qed
qed


lemma scrollValue_moved:
  assumes "scrollValue cb d s = Inr (r, s')"
    and x: "settingAt s (currentSetting s) = Inr x"
    and mv: "(d > 0 \<and> newValue x < nValues x - 1) \<or> (d < 0 \<and> newValue x > 0)"
  obtains r1 s1 where
    "highlightValue (putSetting (currentSetting s) (x\<lparr>newValue := newValue x + d\<rparr>) s) = Inr (r1, s1)"
    and "\<not> liveUpdate x \<Longrightarrow> s' = s1"
    and "liveUpdate x \<Longrightarrow> \<exists>q s2. invoke cb (x\<lparr>newValue := newValue x + d\<rparr>) s1 = Inr (q, s2)
           \<and> s' = putSetting (currentSetting s) (x\<lparr>newValue := newValue x + d, can := q\<rparr>) s2"
proof -
  from mv have kk: "(if d > 0 \<and> newValue x < nValues x - 1 then newValue x + d
               else if d < 0 \<and> newValue x > 0 then newValue x + d
               else newValue x) = newValue x + d" and d0: "d \<noteq> 0"
    by auto
  have nn: "\<not> (settings s = None \<and> currentSetting s = 0)"
    using settingAt_some[OF x] by simp
  let ?x1 = "x\<lparr>newValue := newValue x + d\<rparr>"
  let ?s0 = "putSetting (currentSetting s) ?x1 s"
  from assms(1) nn x d0 obtain r1 s1 where
    h: "highlightValue ?s0 = Inr (r1, s1)"
    and rest: "(if liveUpdate x
                then seq (invoke cb ?x1 s1) (\<lambda>(r, s2).
                    Inr (r1, putSetting (currentSetting s2) (?x1\<lparr>can := r\<rparr>) s2))
                else Inr (r1, s1)) = Inr (r, s')"
    by (auto simp: scrollValue_def Let_def kk seq_Inr_iff)
  have c1: "currentSetting s1 = currentSetting s"
    using draws_fields(3)[OF highlightValue_draws[OF h]] by simp
  have a: "\<not> liveUpdate x \<Longrightarrow> s' = s1" using rest by simp
  have b: "\<exists>q s2. invoke cb ?x1 s1 = Inr (q, s2)
           \<and> s' = putSetting (currentSetting s) (?x1\<lparr>can := q\<rparr>) s2" if "liveUpdate x"
  proof -
    from rest that obtain q s2 where i: "invoke cb ?x1 s1 = Inr (q, s2)"
      and s': "s' = putSetting (currentSetting s2) (?x1\<lparr>can := q\<rparr>) s2"
      by (auto simp: seq_Inr_iff)
    from i have "currentSetting s2 = currentSetting s1"
      by (auto simp: invoke_def split: option.splits)
    with i s' c1 show ?thesis by simp
  qed
  from h a b show ?thesis by (rule that)
qed

lemma scrollValue_logic:
  assumes L: "logic s = logic t"
    and a: "scrollValue cb d s = Inr (r, s')" and b: "scrollValue cb d t = Inr (q, t')"
  shows "logic s' = logic t'"
proof (cases "settings s = None \<and> currentSetting s = 0")
  case True
  with a b L logic_fields(1,4)[OF L] show ?thesis by (auto simp: scrollValue_def)
next
  case False
  with a obtain x where x: "settingAt s (currentSetting s) = Inr x"
    by (auto simp: scrollValue_def seq_Inr_iff)
  have c: "currentSetting t = currentSetting s" using logic_fields(4)[OF L] by simp
  have y: "settingAt t (currentSetting t) = Inr x"
    using x logic_settingAt[OF L] c by simp
  show ?thesis
  proof (cases "(d > 0 \<and> newValue x < nValues x - 1) \<or> (d < 0 \<and> newValue x > 0)")
    case stay: False
    from a b scrollValue_stays[OF x stay, of cb] scrollValue_stays[OF y stay, of cb] L
    show ?thesis by simp
  next
    case mv: True
    let ?x1 = "x\<lparr>newValue := newValue x + d\<rparr>"
    from scrollValue_moved[OF a x mv] obtain r1 s1 where
      h1: "highlightValue (putSetting (currentSetting s) ?x1 s) = Inr (r1, s1)"
      and n1: "\<not> liveUpdate x \<Longrightarrow> s' = s1"
      and l1: "liveUpdate x \<Longrightarrow> \<exists>q s2. invoke cb ?x1 s1 = Inr (q, s2)
           \<and> s' = putSetting (currentSetting s) (?x1\<lparr>can := q\<rparr>) s2"
      by blast
    from scrollValue_moved[OF b y mv] obtain r2 t1 where
      h2: "highlightValue (putSetting (currentSetting s) ?x1 t) = Inr (r2, t1)"
      and n2: "\<not> liveUpdate x \<Longrightarrow> t' = t1"
      and l2: "liveUpdate x \<Longrightarrow> \<exists>q t2. invoke cb ?x1 t1 = Inr (q, t2)
           \<and> t' = putSetting (currentSetting s) (?x1\<lparr>can := q\<rparr>) t2"
      unfolding c by blast
    have L1: "logic s1 = logic t1"
      using draws_logic[OF highlightValue_draws[OF h1]] draws_logic[OF highlightValue_draws[OF h2]]
        logic_put[OF L, of "currentSetting s" ?x1] by simp
    show ?thesis
    proof (cases "liveUpdate x")
      case False
      with n1 n2 L1 show ?thesis by simp
    next
      case True
      from l1[OF True] obtain q1 s2 where i1: "invoke cb ?x1 s1 = Inr (q1, s2)"
        and e1: "s' = putSetting (currentSetting s) (?x1\<lparr>can := q1\<rparr>) s2" by blast
      from l2[OF True] obtain q2 t2 where i2: "invoke cb ?x1 t1 = Inr (q2, t2)"
        and e2: "t' = putSetting (currentSetting s) (?x1\<lparr>can := q2\<rparr>) t2" by blast
      from logic_invoke[OF L1 i1 i2] have qq: "q1 = q2" and L2: "logic s2 = logic t2" by simp_all
      show ?thesis unfolding e1 e2 qq by (rule logic_put[OF L2])
    qed
  qed
qed

lemma settingsStop_logic:
  assumes L: "logic s = logic t"
    and a: "settingsStop cb s = Inr (r, s')" and b: "settingsStop cb t = Inr (q, t')"
  shows "logic s' = logic t'"
proof (cases "editing s")
  case False
  with a b L logic_fields(5)[OF L] show ?thesis by (simp add: settingsStop_def)
next
  case True
  then have et: "editing t" using logic_fields(5)[OF L] by simp
  have c: "currentSetting t = currentSetting s" using logic_fields(4)[OF L] by simp
  from a True obtain x where x: "settingAt s (currentSetting s) = Inr x"
    by (auto simp: settingsStop_def resetNewValue_def seq_Inr_iff)
  then have y: "settingAt t (currentSetting s) = Inr x" using logic_settingAt[OF L] by simp
  let ?x1 = "x\<lparr>newValue := currentValue x\<rparr>"
  note P = logic_put[OF L, of "currentSetting s" ?x1]
  show ?thesis
  proof (cases "liveUpdate x \<and> can x \<and> newValue x \<noteq> currentValue x")
    case False
    with a b True et x y c P show ?thesis
      by (auto simp: settingsStop_def resetNewValue_def Let_def)
  next
    case reset: True
    with a True x obtain r1 where
      i1: "invoke cb ?x1 (putSetting (currentSetting s) ?x1 s) = Inr (r1, s')"
      by (auto simp: settingsStop_def resetNewValue_def Let_def seq_Inr_iff)
    from reset b et y c obtain r2 where
      i2: "invoke cb ?x1 (putSetting (currentSetting s) ?x1 t) = Inr (r2, t')"
      by (auto simp: settingsStop_def resetNewValue_def Let_def seq_Inr_iff)
    from logic_invoke[OF P i1 i2] show ?thesis by simp
  qed
qed


lemma commitValue_logic:
  assumes L: "logic s = logic t"
    and a: "commitValue cb s = Inr s1" and b: "commitValue cb t = Inr t1"
  shows "logic s1 = logic t1"
proof -
  note l = logic_fields[OF L]
  from a obtain x where x: "settingAt s (currentSetting s) = Inr x"
    by (auto simp: commitValue_def seq_Inr_iff)
  then have y: "settingAt t (currentSetting t) = Inr x"
    using logic_settingAt[OF L] l(4) by simp
  note P1 = logic_put[OF L, of "currentSetting s" "x\<lparr>currentValue := newValue x\<rparr>"]
  note P2 = logic_put[OF L, of "currentSetting s" "x\<lparr>newValue := currentValue x\<rparr>"]
  show ?thesis
  proof (cases "newValue x \<noteq> currentValue x \<and> \<not> liveUpdate x")
    case False
    with a b x y l(4) P1 P2 L show ?thesis
      by (auto simp: commitValue_def split: if_splits)
  next
    case call: True
    with a x obtain r1 s2 where i1: "invoke cb x s = Inr (r1, s2)"
      and e1: "s1 = putSetting (currentSetting s2)
                (if r1 then x\<lparr>currentValue := newValue x\<rparr> else x\<lparr>newValue := currentValue x\<rparr>) s2"
      by (auto simp: commitValue_def seq_Inr_iff split: if_splits)
    from call b y obtain r2 t2 where i2: "invoke cb x t = Inr (r2, t2)"
      and e2: "t1 = putSetting (currentSetting t2)
                (if r2 then x\<lparr>currentValue := newValue x\<rparr> else x\<lparr>newValue := currentValue x\<rparr>) t2"
      by (auto simp: commitValue_def seq_Inr_iff split: if_splits)
    from logic_invoke[OF L i1 i2] have rr: "r1 = r2" and L2: "logic s2 = logic t2" by simp_all
    have "currentSetting s2 = currentSetting t2" by (rule logic_fields(4)[OF L2])
    with rr e1 e2 show ?thesis
      by (cases r2) (simp_all add: logic_put[OF L2, of "currentSetting t2" "x\<lparr>currentValue := newValue x\<rparr>"]
          logic_put[OF L2, of "currentSetting t2" "x\<lparr>newValue := currentValue x\<rparr>"])
  qed
qed

lemma invoke_quiet:
  "invoke cb x s = Inr (r, s') \<Longrightarrow>
     myTFT s' = myTFT s \<and> topSetting s' = topSetting s \<and> canUseDisplay s' = canUseDisplay s
     \<and> currentSetting s' = currentSetting s"
  by (cases "fPtr x") (auto simp: invoke_def)

lemma putSetting_quiet [simp]:
  "myTFT (putSetting i x s) = myTFT s"
  by (simp add: putSetting_def)

lemma commitValue_quiet:
  assumes "commitValue cb s = Inr s1"
  shows "myTFT s1 = myTFT s \<and> topSetting s1 = topSetting s \<and> canUseDisplay s1 = canUseDisplay s"
proof -
  from assms obtain x where x: "settingAt s (currentSetting s) = Inr x"
    by (auto simp: commitValue_def seq_Inr_iff)
  show ?thesis
  proof (cases "newValue x \<noteq> currentValue x \<and> \<not> liveUpdate x")
    case False
    with assms x have "s1 = s \<or> (\<exists>x'. s1 = putSetting (currentSetting s) x' s)"
      by (auto simp: commitValue_def split: if_splits)
    then show ?thesis by auto
  next
    case True
    with assms x obtain r1 s2 where i: "invoke cb x s = Inr (r1, s2)"
      and e: "\<exists>x'. s1 = putSetting (currentSetting s2) x' s2"
      by (auto simp: commitValue_def seq_Inr_iff split: if_splits)
    from invoke_quiet[OF i] e show ?thesis by auto
  qed
qed

lemma settingsOK_logic:
  assumes L: "logic s = logic t"
    and a: "settingsOK cb s = Inr (r, s')" and b: "settingsOK cb t = Inr (q, t')"
  shows "logic s' = logic t'"
proof -
  from a obtain s1 r3 where
    c1: "(if editing s then commitValue cb s else Inr s) = Inr s1"
    and h1: "highlightValue (s1\<lparr>editing := \<not> editing s1\<rparr>) = Inr (r3, s')"
    by (auto simp: settingsOK_def seq_Inr_iff Let_def)
  from b obtain t1 r4 where
    c2: "(if editing t then commitValue cb t else Inr t) = Inr t1"
    and h2: "highlightValue (t1\<lparr>editing := \<not> editing t1\<rparr>) = Inr (r4, t')"
    by (auto simp: settingsOK_def seq_Inr_iff Let_def)
  have L1: "logic s1 = logic t1"
  proof (cases "editing s")
    case True
    with c1 c2 logic_fields(5)[OF L] have "commitValue cb s = Inr s1" "commitValue cb t = Inr t1"
      by simp_all
    then show ?thesis by (rule commitValue_logic[OF L])
  next
    case False
    with c1 c2 logic_fields(5)[OF L] L show ?thesis by simp
  qed
  have "logic (s1\<lparr>editing := \<not> editing s1\<rparr>) = logic (t1\<lparr>editing := \<not> editing t1\<rparr>)"
    using L1 by (simp add: logic_def)
  with draws_logic[OF highlightValue_draws[OF h1]] draws_logic[OF highlightValue_draws[OF h2]]
  show ?thesis by simp
qed

lemma displayValue_off:
  "\<not> canUseDisplay s \<Longrightarrow> displayValue i row clean fg bg s = Inr (r, s') \<Longrightarrow> s' = s"
  by (auto simp: displayValue_def seq_Inr_iff printAt_off split: if_splits)

lemma highlightValue_off:
  "\<not> canUseDisplay s \<Longrightarrow> highlightValue s = Inr (r, s') \<Longrightarrow> s' = s"
  by (auto simp: highlightValue_def Let_def seq_Inr_iff dest: displayValue_off)

lemma scrollValue_off:
  assumes off: "\<not> canUseDisplay s" and a: "scrollValue cb d s = Inr (r, s')"
  shows "myTFT s' = myTFT s \<and> topSetting s' = topSetting s"
proof (cases "settings s = None \<and> currentSetting s = 0")
  case True
  with a show ?thesis by (auto simp: scrollValue_def)
next
  case False
  with a obtain x where x: "settingAt s (currentSetting s) = Inr x"
    by (auto simp: scrollValue_def seq_Inr_iff)
  show ?thesis
  proof (cases "(d > 0 \<and> newValue x < nValues x - 1) \<or> (d < 0 \<and> newValue x > 0)")
    case stay: False
    from a scrollValue_stays[OF x stay, of cb] show ?thesis by simp
  next
    case mv: True
    let ?x1 = "x\<lparr>newValue := newValue x + d\<rparr>"
    let ?s0 = "putSetting (currentSetting s) ?x1 s"
    from scrollValue_moved[OF a x mv] obtain r1 s1 where
      h1: "highlightValue ?s0 = Inr (r1, s1)"
      and n1: "\<not> liveUpdate x \<Longrightarrow> s' = s1"
      and l1: "liveUpdate x \<Longrightarrow> \<exists>q s2. invoke cb ?x1 s1 = Inr (q, s2)
           \<and> s' = putSetting (currentSetting s) (?x1\<lparr>can := q\<rparr>) s2"
      by blast
    have "\<not> canUseDisplay ?s0" using off by simp
    from highlightValue_off[OF this h1] have s1: "s1 = ?s0" .
    show ?thesis
    proof (cases "liveUpdate x")
      case False
      with n1 s1 show ?thesis by (simp add: putSetting_def)
    next
      case True
      from l1[OF True] obtain q s2 where i: "invoke cb ?x1 s1 = Inr (q, s2)"
        and e: "s' = putSetting (currentSetting s) (?x1\<lparr>can := q\<rparr>) s2" by blast
      from i have "myTFT s2 = myTFT s1 \<and> topSetting s2 = topSetting s1"
        by (auto simp: invoke_def split: option.splits)
      with e s1 show ?thesis by (simp add: putSetting_def)
    qed
  qed
qed

lemma scrollSetting_off:
  assumes off: "\<not> canUseDisplay s" and a: "scrollSetting d s = Inr (r, s')"
  shows "myTFT s' = myTFT s \<and> topSetting s' = topSetting s"
proof -
  from a obtain found where f: "findSetting d s (currentSetting s) = Inr found"
    by (auto simp: scrollSetting_def seq_Inr_iff)
  show ?thesis
  proof (cases found)
    case None
    with a f show ?thesis by (simp add: scrollSetting_clamped)
  next
    case (Some k)
    show ?thesis
    proof (cases "k = currentSetting s")
      case True
      with a f Some show ?thesis by (simp add: scrollSetting_def)
    next
      case False
      from scrollSetting_moved(3)[OF a f[unfolded Some] False off] show ?thesis by simp
    qed
  qed
qed

lemma settingsOK_off:
  assumes off: "\<not> canUseDisplay s" and a: "settingsOK cb s = Inr (r, s')"
  shows "myTFT s' = myTFT s \<and> topSetting s' = topSetting s"
proof -
  from a obtain s1 r3 where
    c1: "(if editing s then commitValue cb s else Inr s) = Inr s1"
    and h1: "highlightValue (s1\<lparr>editing := \<not> editing s1\<rparr>) = Inr (r3, s')"
    by (auto simp: settingsOK_def seq_Inr_iff Let_def)
  have q: "myTFT s1 = myTFT s \<and> topSetting s1 = topSetting s \<and> canUseDisplay s1 = canUseDisplay s"
    using c1 commitValue_quiet[of cb s s1] by (cases "editing s") simp_all
  then have "\<not> canUseDisplay (s1\<lparr>editing := \<not> editing s1\<rparr>)" using off by simp
  from highlightValue_off[OF this h1] q show ?thesis by simp
qed

lemma settingsStop_quiet:
  assumes "settingsStop cb s = Inr (r, s')"
  shows "myTFT s' = myTFT s \<and> topSetting s' = topSetting s"
proof (cases "editing s")
  case False
  with assms show ?thesis by (simp add: settingsStop_def)
next
  case True
  with assms obtain x where x: "settingAt s (currentSetting s) = Inr x"
    by (auto simp: settingsStop_def resetNewValue_def seq_Inr_iff)
  let ?x1 = "x\<lparr>newValue := currentValue x\<rparr>"
  show ?thesis
  proof (cases "liveUpdate x \<and> can x \<and> newValue x \<noteq> currentValue x")
    case False
    with assms True x have "s' = putSetting (currentSetting s) ?x1 s"
      by (auto simp: settingsStop_def resetNewValue_def Let_def)
    then show ?thesis by simp
  next
    case reset: True
    with assms True x obtain r1 where
      "invoke cb ?x1 (putSetting (currentSetting s) ?x1 s) = Inr (r1, s')"
      by (auto simp: settingsStop_def resetNewValue_def Let_def seq_Inr_iff)
    from invoke_quiet[OF this] show ?thesis by simp
  qed
qed


lemma exampleLong_off:
  "settingsUp counting (exampleLong False) = Inr (False, (exampleLong False)\<lparr>currentSetting := 16\<rparr>)"
  by (simp add: exampleLong_def example_defs code_defs browse_defs displaySettings_def)

lemma exampleLong_on:
  "seen (settingsUp counting (exampleLong True)) = Inr (True, 16, 1, 185)"
  by (simp add: seen_def exampleLong_def example_defs code_defs browse_defs displaySettings_def
      displayRows.simps displaySetting_def displayName_def numeral_eq_Suc
      TFT_CHARS_def CHAR_WIDTH_def)

text \<open>
  C9, as the claim states it: when a drawing step of an event reports failure, nothing is
  abandoned and every display write that remains for the event is still executed. It
  fails: on a menu of seventeen settings with the cursor on the last line of the window,
  \<^verbatim>\<open>settingsUp\<close> has to redraw the window. With the display in use it returns true,
  moves \<^verbatim>\<open>topSetting\<close> to \<open>1\<close> and makes 185 calls on the driver; with the display not
  in use \<^verbatim>\<open>displaySettings\<close> returns false at once, the event returns false,
  \<^verbatim>\<open>topSetting\<close> stays \<open>0\<close> and no call on the driver is made.
\<close>

theorem failed_redraw_skips_writes_counterexample:
  "seen (settingsUp counting (exampleLong False)) = Inr (False, 16, 0, 0)
   \<and> seen (settingsUp counting (exampleLong True)) = Inr (True, 16, 1, 185)"
  using exampleLong_off exampleLong_on by (simp add: seen_def exampleLong_def)

text \<open>
  C9, amended. A failed drawing step does not end the event. Two states that differ in the
  display, its ownership flag and \<^verbatim>\<open>topSetting\<close> only are taken by each of the four
  events to states that again differ in these only: the settings with their
  \<^verbatim>\<open>currentValue\<close> and \<^verbatim>\<open>newValue\<close>, \<^verbatim>\<open>currentSetting\<close>, \<^verbatim>\<open>editing\<close> and the callback
  invocations are those of the run in which the drawing succeeds. While the display is
  not in use an event makes no call on the driver and leaves \<^verbatim>\<open>topSetting\<close> as it is;
  and a browsing move that then needs the window redrawn returns false.
\<close>

theorem render_failure_keeps_logic:
  "(logic s = logic t \<longrightarrow> settingsUp cb s = Inr (r, s') \<longrightarrow> settingsUp cb t = Inr (q, t')
      \<longrightarrow> logic s' = logic t')
 \<and> (logic s = logic t \<longrightarrow> settingsDown cb s = Inr (r, s') \<longrightarrow> settingsDown cb t = Inr (q, t')
      \<longrightarrow> logic s' = logic t')
 \<and> (logic s = logic t \<longrightarrow> settingsOK cb s = Inr (r, s') \<longrightarrow> settingsOK cb t = Inr (q, t')
      \<longrightarrow> logic s' = logic t')
 \<and> (logic s = logic t \<longrightarrow> settingsStop cb s = Inr (r, s') \<longrightarrow> settingsStop cb t = Inr (q, t')
      \<longrightarrow> logic s' = logic t')
 \<and> (\<not> canUseDisplay s \<longrightarrow> settingsUp cb s = Inr (r, s')
      \<longrightarrow> myTFT s' = myTFT s \<and> topSetting s' = topSetting s)
 \<and> (\<not> canUseDisplay s \<longrightarrow> settingsDown cb s = Inr (r, s')
      \<longrightarrow> myTFT s' = myTFT s \<and> topSetting s' = topSetting s)
 \<and> (\<not> canUseDisplay s \<longrightarrow> settingsOK cb s = Inr (r, s')
      \<longrightarrow> myTFT s' = myTFT s \<and> topSetting s' = topSetting s)
 \<and> (\<not> canUseDisplay s \<longrightarrow> settingsStop cb s = Inr (r, s')
      \<longrightarrow> myTFT s' = myTFT s \<and> topSetting s' = topSetting s)
 \<and> (\<not> editing s \<longrightarrow> \<not> canUseDisplay s \<longrightarrow> settingsUp cb s = Inr (r, s') \<longrightarrow>
      currentSetting s' < topSetting s \<or> topSetting s + TFT_LINES \<le> currentSetting s' \<longrightarrow> \<not> r)
 \<and> (\<not> editing s \<longrightarrow> \<not> canUseDisplay s \<longrightarrow> settingsDown cb s = Inr (r, s') \<longrightarrow>
      currentSetting s' < topSetting s \<or> topSetting s + TFT_LINES \<le> currentSetting s' \<longrightarrow> \<not> r)"
proof -
  have up_logic: "logic s' = logic t'"
    if L: "logic s = logic t" and a: "settingsUp cb s = Inr (r, s')"
      and b: "settingsUp cb t = Inr (q, t')"
  proof (cases "editing s")
    case True
    with a b logic_fields(5)[OF L] have "scrollValue cb 1 s = Inr (r, s')"
      "scrollValue cb 1 t = Inr (q, t')" by (simp_all add: settingsUp_def)
    then show ?thesis by (rule scrollValue_logic[OF L])
  next
    case False
    with a b logic_fields(5)[OF L] have "scrollSetting 1 s = Inr (r, s')"
      "scrollSetting 1 t = Inr (q, t')" by (simp_all add: settingsUp_def)
    then show ?thesis by (rule scrollSetting_logic[OF L])
  qed
  have down_logic: "logic s' = logic t'"
    if L: "logic s = logic t" and a: "settingsDown cb s = Inr (r, s')"
      and b: "settingsDown cb t = Inr (q, t')"
  proof (cases "editing s")
    case True
    with a b logic_fields(5)[OF L] have "scrollValue cb (- 1) s = Inr (r, s')"
      "scrollValue cb (- 1) t = Inr (q, t')" by (simp_all add: settingsDown_def)
    then show ?thesis by (rule scrollValue_logic[OF L])
  next
    case False
    with a b logic_fields(5)[OF L] have "scrollSetting (- 1) s = Inr (r, s')"
      "scrollSetting (- 1) t = Inr (q, t')" by (simp_all add: settingsDown_def)
    then show ?thesis by (rule scrollSetting_logic[OF L])
  qed
  have up_off: "myTFT s' = myTFT s \<and> topSetting s' = topSetting s"
    if off: "\<not> canUseDisplay s" and a: "settingsUp cb s = Inr (r, s')"
  proof (cases "editing s")
    case True
    with a have "scrollValue cb 1 s = Inr (r, s')" by (simp add: settingsUp_def)
    then show ?thesis by (rule scrollValue_off[OF off])
  next
    case False
    with a have "scrollSetting 1 s = Inr (r, s')" by (simp add: settingsUp_def)
    then show ?thesis by (rule scrollSetting_off[OF off])
  qed
  have down_off: "myTFT s' = myTFT s \<and> topSetting s' = topSetting s"
    if off: "\<not> canUseDisplay s" and a: "settingsDown cb s = Inr (r, s')"
  proof (cases "editing s")
    case True
    with a have "scrollValue cb (- 1) s = Inr (r, s')" by (simp add: settingsDown_def)
    then show ?thesis by (rule scrollValue_off[OF off])
  next
    case False
    with a have "scrollSetting (- 1) s = Inr (r, s')" by (simp add: settingsDown_def)
    then show ?thesis by (rule scrollSetting_off[OF off])
  qed
  have up_fail: "\<not> r"
    if e: "\<not> editing s" and off: "\<not> canUseDisplay s" and a: "settingsUp cb s = Inr (r, s')"
      and w: "currentSetting s' < topSetting s \<or> topSetting s + TFT_LINES \<le> currentSetting s'"
  proof -
    from e a have "scrollSetting 1 s = Inr (r, s')" by (simp add: settingsUp_def)
    from scrollSetting_result[OF this _ e] off w show "\<not> r" by simp
  qed
  have down_fail: "\<not> r"
    if e: "\<not> editing s" and off: "\<not> canUseDisplay s" and a: "settingsDown cb s = Inr (r, s')"
      and w: "currentSetting s' < topSetting s \<or> topSetting s + TFT_LINES \<le> currentSetting s'"
  proof -
    from e a have "scrollSetting (- 1) s = Inr (r, s')" by (simp add: settingsDown_def)
    from scrollSetting_result[OF this _ e] off w show "\<not> r" by simp
  qed
  show ?thesis
    using up_logic down_logic up_off down_off up_fail down_fail
      settingsOK_logic[of s t cb r s' q t'] settingsStop_logic[of s t cb r s' q t']
      settingsOK_off[of s cb r s'] settingsStop_quiet[of cb s r s']
    by blast
qed

theorem render_failure_keeps_logic_witness:
  "logic (exampleLong False) = logic (exampleLong True)
   \<and> (\<exists>t'. settingsUp counting (exampleLong False)
            = Inr (False, (exampleLong False)\<lparr>currentSetting := 16\<rparr>)
        \<and> settingsUp counting (exampleLong True) = Inr (True, t')
        \<and> logic ((exampleLong False)\<lparr>currentSetting := 16\<rparr>) = logic t')"
proof -
  have L: "logic (exampleLong False) = logic (exampleLong True)"
    by (simp add: logic_def exampleLong_def)
  from exampleLong_on obtain t' where b: "settingsUp counting (exampleLong True) = Inr (True, t')"
    by (cases "settingsUp counting (exampleLong True)") (auto simp: seen_def)
  have "logic ((exampleLong False)\<lparr>currentSetting := 16\<rparr>) = logic t'"
    by (rule render_failure_keeps_logic[THEN conjunct1, rule_format, OF L exampleLong_off b])
  with L exampleLong_off b show ?thesis by blast
qed

subsection \<open>Where the cursor is\<close>

lemma named_put:
  assumes "settingAt s i = Inr x" and "name x' = name x"
  shows "named (putSetting i x' s) j = named s j"
proof (cases "j = i")
  case True
  with assms show ?thesis by (simp add: named_def settingAt_put_same)
next
  case False
  show ?thesis
  proof (cases "0 \<le> j")
    case True
    with False settingAt_nonneg[OF assms(1)] show ?thesis
      by (simp add: named_def settingAt_put_other)
  next
    case False
    then show ?thesis
      by (auto simp: named_def settingAt_def putSetting_def split: option.splits)
  qed
qed

lemma named_fields [simp]:
  "named (s\<lparr>app := w\<rparr>) i = named s i"
  "named (s\<lparr>calls := c\<rparr>) i = named s i"
  "named (s\<lparr>editing := e\<rparr>) i = named s i"
  "named (s\<lparr>canUseDisplay := e\<rparr>) i = named s i"
  "named (s\<lparr>nSettings := k\<rparr>) i = named s i"
  by (simp_all add: named_def settingAt_nSettings)

lemma draws_named:
  assumes "draws s s'"
  shows "named s' i = named s i"
  by (simp add: named_def draws_settingAt[OF assms])

lemma invoke_named:
  assumes "invoke cb x s = Inr (r, s')"
  shows "named s' i = named s i" and "settingAt s' i = settingAt s i"
  using assms by (auto simp: invoke_def split: option.splits)

lemma scrollValue_named:
  assumes a: "scrollValue cb d s = Inr (r, s')"
  shows "named s' i = named s i"
proof (cases "settings s = None \<and> currentSetting s = 0")
  case True
  with a show ?thesis by (auto simp: scrollValue_def)
next
  case False
  with a obtain x where x: "settingAt s (currentSetting s) = Inr x"
    by (auto simp: scrollValue_def seq_Inr_iff)
  show ?thesis
  proof (cases "(d > 0 \<and> newValue x < nValues x - 1) \<or> (d < 0 \<and> newValue x > 0)")
    case stay: False
    from a scrollValue_stays[OF x stay, of cb] show ?thesis by simp
  next
    case mv: True
    let ?x1 = "x\<lparr>newValue := newValue x + d\<rparr>"
    let ?s0 = "putSetting (currentSetting s) ?x1 s"
    from scrollValue_moved[OF a x mv] obtain r1 s1 where
      h1: "highlightValue ?s0 = Inr (r1, s1)"
      and n1: "\<not> liveUpdate x \<Longrightarrow> s' = s1"
      and l1: "liveUpdate x \<Longrightarrow> \<exists>q s2. invoke cb ?x1 s1 = Inr (q, s2)
           \<and> s' = putSetting (currentSetting s) (?x1\<lparr>can := q\<rparr>) s2"
      by blast
    have n0: "named ?s0 i = named s i" by (rule named_put[OF x]) simp
    have ns1: "named s1 i = named s i"
      using draws_named[OF highlightValue_draws[OF h1]] n0 by simp
    have x0: "settingAt ?s0 (currentSetting s) = Inr ?x1" using x by (simp add: settingAt_put_same)
    have x1: "settingAt s1 (currentSetting s) = Inr ?x1"
      using draws_settingAt[OF highlightValue_draws[OF h1]] x0 by simp
    show ?thesis
    proof (cases "liveUpdate x")
      case False
      with n1 ns1 show ?thesis by simp
    next
      case True
      from l1[OF True] obtain q s2 where i: "invoke cb ?x1 s1 = Inr (q, s2)"
        and e: "s' = putSetting (currentSetting s) (?x1\<lparr>can := q\<rparr>) s2" by blast
      have x2: "settingAt s2 (currentSetting s) = Inr ?x1" using invoke_named(2)[OF i] x1 by simp
      have "named s' i = named s2 i" unfolding e by (rule named_put[OF x2]) simp
      with invoke_named(1)[OF i] ns1 show ?thesis by simp
    qed
  qed
qed

lemma commitValue_named:
  assumes a: "commitValue cb s = Inr s1"
  shows "named s1 i = named s i"
proof -
  from a obtain x where x: "settingAt s (currentSetting s) = Inr x"
    by (auto simp: commitValue_def seq_Inr_iff)
  note P1 = named_put[OF x, of "x\<lparr>currentValue := newValue x\<rparr>" i]
  note P2 = named_put[OF x, of "x\<lparr>newValue := currentValue x\<rparr>" i]
  show ?thesis
  proof (cases "newValue x \<noteq> currentValue x \<and> \<not> liveUpdate x")
    case False
    with a x P1 P2 show ?thesis
      by (auto simp: commitValue_def split: if_splits)
  next
    case True
    with a x obtain r1 s2 where i: "invoke cb x s = Inr (r1, s2)"
      and e: "s1 = putSetting (currentSetting s2)
                (if r1 then x\<lparr>currentValue := newValue x\<rparr> else x\<lparr>newValue := currentValue x\<rparr>) s2"
      by (auto simp: commitValue_def seq_Inr_iff split: if_splits)
    have c: "currentSetting s2 = currentSetting s" using invoke_quiet[OF i] by simp
    have x2: "settingAt s2 (currentSetting s2) = Inr x" using invoke_named(2)[OF i] x c by simp
    have "named s1 i = named s2 i" unfolding e by (rule named_put[OF x2]) simp
    with invoke_named(1)[OF i] show ?thesis by simp
  qed
qed

lemma settingsOK_named:
  assumes a: "settingsOK cb s = Inr (r, s')"
  shows "named s' i = named s i"
proof -
  from a obtain s1 r3 where
    c1: "(if editing s then commitValue cb s else Inr s) = Inr s1"
    and h1: "highlightValue (s1\<lparr>editing := \<not> editing s1\<rparr>) = Inr (r3, s')"
    by (auto simp: settingsOK_def seq_Inr_iff Let_def)
  have "named s1 i = named s i"
    using c1 commitValue_named[of cb s s1 i] by (cases "editing s") simp_all
  with draws_named[OF highlightValue_draws[OF h1]] show ?thesis by simp
qed

lemma settingsStop_named:
  assumes "settingsStop cb s = Inr (r, s')"
  shows "named s' i = named s i"
proof (cases "editing s")
  case False
  with assms show ?thesis by (simp add: settingsStop_def)
next
  case True
  with assms obtain x where x: "settingAt s (currentSetting s) = Inr x"
    by (auto simp: settingsStop_def resetNewValue_def seq_Inr_iff)
  let ?x1 = "x\<lparr>newValue := currentValue x\<rparr>"
  have p: "named (putSetting (currentSetting s) ?x1 s) i = named s i"
    by (rule named_put[OF x]) simp
  show ?thesis
  proof (cases "liveUpdate x \<and> can x \<and> newValue x \<noteq> currentValue x")
    case False
    with assms True x have "s' = putSetting (currentSetting s) ?x1 s"
      by (auto simp: settingsStop_def resetNewValue_def Let_def)
    with p show ?thesis by simp
  next
    case reset: True
    with assms True x obtain r1 where
      "invoke cb ?x1 (putSetting (currentSetting s) ?x1 s) = Inr (r1, s')"
      by (auto simp: settingsStop_def resetNewValue_def Let_def seq_Inr_iff)
    from invoke_named(1)[OF this] p show ?thesis by simp
  qed
qed


lemma scrollSetting_cursorValid:
  assumes J: "cursorValid s" and a: "scrollSetting d s = Inr (r, s')" and d: "d = 1 \<or> d = - 1"
  shows "cursorValid s'"
proof -
  from a obtain found where f: "findSetting d s (currentSetting s) = Inr found"
    by (auto simp: scrollSetting_def seq_Inr_iff)
  show ?thesis
  proof (cases found)
    case None
    with a f J show ?thesis by (simp add: scrollSetting_clamped)
  next
    case (Some q)
    note m = scrollSetting_sameMenu[OF a]
    have n: "nSettings s' = nSettings s" using m by (simp add: sameMenu_def)
    from d have "named s q \<and> q < nSettings s \<and> q \<noteq> currentSetting s"
    proof
      assume "d = 1"
      from findSetting_up[OF this f[unfolded Some]] show ?thesis by (auto simp: gap_def)
    next
      assume "d = - 1"
      from findSetting_down[OF this f[unfolded Some]] have
        g: "q < currentSetting s" and nq: "named s q" by (auto simp: gap_def)
      from g named_nonneg[OF nq] have "currentSetting s \<noteq> 0" by simp
      with J have "currentSetting s < nSettings s" by (simp add: cursorValid_def)
      with g nq show ?thesis by simp
    qed
    then have nq: "named s q" and lt: "q < nSettings s" and ne: "q \<noteq> currentSetting s"
      by simp_all
    have c: "currentSetting s' = q" by (rule scrollSetting_moved(1)[OF a f[unfolded Some] ne])
    from nq lt c n show ?thesis by (simp add: cursorValid_def sameMenu_named[OF m])
  qed
qed

lemma handle_cursorValid:
  assumes J: "cursorValid s" and h: "handle cb e s = Inr s'"
  shows "cursorValid s'"
proof (cases e)
  case (Create nm vals nVals curVal live setFPtr)
  with h obtain ro where
    "createSetting nm vals nVals curVal live setFPtr s = Inr (ro, s')"
    by (auto simp: seq_Inr_iff)
  note f = createSetting_effect[OF this]
  have c: "currentSetting s' = currentSetting s" using f by blast
  have o: "\<And>i. 0 \<le> i \<Longrightarrow> i \<noteq> nSettings s \<Longrightarrow> settingAt s' i = settingAt s i"
    using f by blast
  have n: "s' = s \<or> nSettings s' = nSettings s + 1" using f by blast
  show ?thesis
  proof (cases "currentSetting s = 0")
    case True
    with c show ?thesis by (simp add: cursorValid_def)
  next
    case False
    with J have lt: "currentSetting s < nSettings s" and nm: "named s (currentSetting s)"
      by (simp_all add: cursorValid_def)
    have "settingAt s' (currentSetting s) = settingAt s (currentSetting s)"
      using o[OF named_nonneg[OF nm]] lt by simp
    with nm have "named s' (currentSetting s)" by (simp add: named_def)
    moreover have "currentSetting s < nSettings s'" using n lt by auto
    ultimately show ?thesis using c by (simp add: cursorValid_def)
  qed
next
  case DisplayOn
  with h obtain r where "settingsDisplayOn s = Inr (r, s')"
    by (auto simp: seq_Inr_iff)
  from settingsDisplayOn_draws[OF this] have d: "draws (s\<lparr>canUseDisplay := True\<rparr>) s'" .
  from J draws_fields(3,4)[OF d] draws_named[OF d] show ?thesis
    by (simp add: cursorValid_def)
next
  case DisplayOff
  with h have "s' = s\<lparr>canUseDisplay := False, editing := False\<rparr>"
    by (auto simp: settingsDisplayOff_def)
  with J show ?thesis by (simp add: cursorValid_def)
next
  case Up
  with h obtain r where u: "settingsUp cb s = Inr (r, s')"
    by (auto simp: seq_Inr_iff)
  show ?thesis
  proof (cases "editing s")
    case True
    with u have v: "scrollValue cb 1 s = Inr (r, s')" by (simp add: settingsUp_def)
    from scrollValue_effect[OF v] have "currentSetting s' = currentSetting s"
      "nSettings s' = nSettings s" by blast+
    with J scrollValue_named[OF v] show ?thesis by (simp add: cursorValid_def)
  next
    case False
    with u have "scrollSetting 1 s = Inr (r, s')" by (simp add: settingsUp_def)
    from scrollSetting_cursorValid[OF J this] show ?thesis by simp
  qed
next
  case Down
  with h obtain r where u: "settingsDown cb s = Inr (r, s')"
    by (auto simp: seq_Inr_iff)
  show ?thesis
  proof (cases "editing s")
    case True
    with u have v: "scrollValue cb (- 1) s = Inr (r, s')" by (simp add: settingsDown_def)
    from scrollValue_effect[OF v] have "currentSetting s' = currentSetting s"
      "nSettings s' = nSettings s" by blast+
    with J scrollValue_named[OF v] show ?thesis by (simp add: cursorValid_def)
  next
    case False
    with u have "scrollSetting (- 1) s = Inr (r, s')" by (simp add: settingsDown_def)
    from scrollSetting_cursorValid[OF J this] show ?thesis by simp
  qed
next
  case OK
  with h obtain r where v: "settingsOK cb s = Inr (r, s')"
    by (auto simp: seq_Inr_iff)
  from settingsOK_effect[OF v] have "currentSetting s' = currentSetting s"
    "nSettings s' = nSettings s" by blast+
  with J settingsOK_named[OF v] show ?thesis by (simp add: cursorValid_def)
next
  case Stop
  with h obtain r where v: "settingsStop cb s = Inr (r, s')"
    by (auto simp: seq_Inr_iff)
  from settingsStop_effect[OF v] have "currentSetting s' = currentSetting s"
    "nSettings s' = nSettings s" by blast+
  with J settingsStop_named[OF v] show ?thesis by (simp add: cursorValid_def)
qed

lemma run_cursorValid:
  "cursorValid s \<Longrightarrow> run cb evs s = Inr s' \<Longrightarrow> cursorValid s'"
proof (induction evs arbitrary: s)
  case Nil
  then show ?case by simp
next
  case (Cons e evs)
  from Cons.prems(2) obtain s1 where h: "handle cb e s = Inr s1" and r: "run cb evs s1 = Inr s'"
    by (auto simp: seq_Inr_iff)
  from Cons.IH[OF handle_cursorValid[OF Cons.prems(1) h] r] show ?case .
qed

text \<open>
  Every state reached from \<^verbatim>\<open>initSettings\<close> by the public operations has its cursor on
  a setting with a name or on index \<open>0\<close>: the states the theorem of C7 is about are
  all the browsing states the library reaches.
\<close>

lemma cursor_on_named_or_first:
  assumes "run cb evs (snd (initSettings n tft mem (start tft0 w))) = Inr s"
  shows "named s (currentSetting s) \<or> currentSetting s = 0"
proof -
  have "cursorValid (snd (initSettings n tft mem (start tft0 w)))"
    by (simp add: cursorValid_def initSettings_def start_def)
  from run_cursorValid[OF this assms] show ?thesis by (auto simp: cursorValid_def)
qed

end
